theory Spec2Isabelle
  imports Main "HOL-Library.Monad_Syntax"
begin

section \<open>JavaScript values used by lib/assetmanager.js\<close>

text \<open>
  A JavaScript object whose property names are array indices (layer ids, component
  ids) enumerates its keys in ascending numeric order. Such an object is an association
  list kept in ascending key order: \<open>obj_set\<close> is the assignment \<^verbatim>\<open>o[k] = v\<close>,
  \<open>obj_delete\<close> is \<^verbatim>\<open>delete o[k]\<close>, \<open>obj_has\<close> is \<^verbatim>\<open>o.hasOwnProperty(k)\<close>,
  \<open>obj_get\<close> is \<^verbatim>\<open>o[k]\<close> (\<open>None\<close> for \<^verbatim>\<open>undefined\<close>) and \<open>obj_keys\<close> is
  \<^verbatim>\<open>Object.keys(o)\<close>.
\<close>

type_synonym 'v obj = "(nat \<times> 'v) list"

fun obj_set :: "nat \<Rightarrow> 'v \<Rightarrow> 'v obj \<Rightarrow> 'v obj" where
  "obj_set k v [] = [(k, v)]"
| "obj_set k v ((k', v') # kvs) =
     (if k < k' then (k, v) # (k', v') # kvs
      else if k = k' then (k, v) # kvs
      else (k', v') # obj_set k v kvs)"

fun obj_delete :: "nat \<Rightarrow> 'v obj \<Rightarrow> 'v obj" where
  "obj_delete k [] = []"
| "obj_delete k ((k', v') # kvs) =
     (if k = k' then obj_delete k kvs else (k', v') # obj_delete k kvs)"

fun obj_get :: "'v obj \<Rightarrow> nat \<Rightarrow> 'v option" where
  "obj_get [] k = None"
| "obj_get ((k', v') # kvs) k = (if k = k' then Some v' else obj_get kvs k)"

definition obj_has :: "'v obj \<Rightarrow> nat \<Rightarrow> bool" where
  "obj_has ob k = (obj_get ob k \<noteq> None)"

definition obj_keys :: "'v obj \<Rightarrow> nat list" where
  "obj_keys ob = map fst ob"

text \<open>
  Truthiness of an optional string: \<^verbatim>\<open>undefined\<close>, \<^verbatim>\<open>null\<close> and the empty string
  are falsy.
\<close>

fun truthy :: "string option \<Rightarrow> bool" where
  "truthy None = False"
| "truthy (Some s) = (s \<noteq> [])"

section \<open>Layers\<close>

text \<open>
  Layer objects live on a heap (a function from references to objects), because
  \<^verbatim>\<open>layer.group\<close> is a reference to another Layer object and nothing in the program
  keeps a chain of such references from running into itself. \<open>adjustment\<close> is
  \<^verbatim>\<open>layer instanceof AdjustmentLayer\<close>.
\<close>

record layer =
  layer_id :: nat
  name :: "string option"
  group :: "nat option"
  adjustment :: bool

type_synonym heap = "nat \<Rightarrow> layer"

text \<open>
  \<^verbatim>\<open>getDependentLayers(layer)\<close>, lines 272-280. The function recurses along
  \<^verbatim>\<open>layer.group\<close> with no other stopping condition, so the result is optional: \<open>None\<close>
  stands for a call that never returns.
\<close>

partial_function (option) getDependentLayers :: "heap \<Rightarrow> nat \<Rightarrow> nat list option" where
  "getDependentLayers h l =
     (let dependencies = (if truthy (name (h l)) then [l] else []) in
      case group (h l) of
        None \<Rightarrow> Some dependencies
      | Some g \<Rightarrow> do { ds \<leftarrow> getDependentLayers h g; Some (dependencies @ ds) })"

declare getDependentLayers.simps [code]

text \<open>
  The chain of a layer: the layer itself followed by its \<open>group\<close> ancestors up to a layer
  without a group. A chain exists exactly when following \<open>group\<close> ends.
\<close>

inductive chain :: "heap \<Rightarrow> nat \<Rightarrow> nat list \<Rightarrow> bool" where
  chain_root: "group (h l) = None \<Longrightarrow> chain h l [l]"
| chain_step: "group (h l) = Some g \<Longrightarrow> chain h g ls \<Longrightarrow> chain h l (l # ls)"

definition named :: "heap \<Rightarrow> nat \<Rightarrow> bool" where
  "named h l = truthy (name (h l))"


text \<open>
  Lines 316-324: the changed layers are closed with their dependencies, into an object
  keyed by layer id. The entries of \<^verbatim>\<open>change.layers\<close> are visited in key order;
  \<^verbatim>\<open>layerChange.layer\<close> is a reference to a Layer object. \<open>addDependencies\<close> is the
  inner \<^verbatim>\<open>reduce\<close> of lines 320-323.
\<close>

datatype change_type = added | removed | modified

record layerChange =
  type :: change_type
  layer :: nat

definition addDependencies :: "heap \<Rightarrow> nat list \<Rightarrow> nat obj \<Rightarrow> nat obj" where
  "addDependencies h ds dl = fold (\<lambda>l dl. obj_set (layer_id (h l)) l dl) ds dl"

fun dependentLayers :: "heap \<Rightarrow> layerChange obj \<Rightarrow> nat obj \<Rightarrow> nat obj option" where
  "dependentLayers h [] dl = Some dl"
| "dependentLayers h ((i, layerChange) # lcs) dl =
     do { ds \<leftarrow> getDependentLayers h (layer layerChange);
          dependentLayers h lcs (addDependencies h ds dl) }"

section \<open>Components, render jobs and collaborators\<close>

text \<open>
  A specification is what \<^verbatim>\<open>findAllComponents\<close> parses from a layer; \<open>has_default\<close> is
  \<^verbatim>\<open>specification.hasOwnProperty("default")\<close>. A component is what the catalog hands
  out for rendering; \<open>component_layer_id\<close> is \<^verbatim>\<open>component.layer.id\<close>.
\<close>

record componentSpec =
  spec_name :: string
  has_default :: bool

record component =
  component_id :: nat
  component_name :: string
  assetPath :: string
  component_layer_id :: nat

record result =
  component :: "componentSpec option"
  errors :: "string list option"

text \<open>
  The ComponentManager (lib/componentmanager.js) is not part of the source under study.
  Its methods are parameters of the model, with the signatures the orchestrator uses:
  \<open>addComponent\<close> returns the new component id and the updated catalog, or the message
  of the exception it throws; \<open>getComponentsByLayer\<close> gives the keys of the object it
  returns.
\<close>

record 'c ComponentManager =
  new_ComponentManager :: 'c
  findAllComponents :: "'c \<Rightarrow> heap \<Rightarrow> nat \<Rightarrow> result list"
  addComponent :: "'c \<Rightarrow> heap \<Rightarrow> nat \<Rightarrow> componentSpec \<Rightarrow> string + nat \<times> 'c"
  removeComponent :: "'c \<Rightarrow> nat \<Rightarrow> 'c"
  getComponentsByLayer :: "'c \<Rightarrow> nat \<Rightarrow> nat list"
  getBasicComponentsByLayer :: "'c \<Rightarrow> nat \<Rightarrow> component list"
  getDerivedComponents :: "'c \<Rightarrow> nat \<Rightarrow> component list"

text \<open>
  A render job is the promise returned by \<^verbatim>\<open>renderManager.render\<close>. It is fulfilled with
  a temporary path (possibly none) or rejected with an error (none for a cancellation).
  \<open>handled\<close> says that the handlers attached by \<^verbatim>\<open>_requestRender\<close> have run: a promise
  is settled first and its handlers run in a later turn.
\<close>

datatype outcome = Fulfilled "string option" | Rejected "string option"

datatype promise_state = Pending | Settled outcome

record job =
  job_component :: component
  promise :: promise_state
  handled :: bool

text \<open>Every call the AssetManager makes on a collaborator, in order.\<close>

datatype call =
    emit_active nat
  | emit_idle nat
  | renderManager_render nat
  | renderManager_cancel nat
  | renderManager_cancelAll nat
  | fileManager_updateBasePath
  | fileManager_moveFileInto string string
  | fileManager_removeFileWithin string
  | fileManager_cancelAll
  | errorManager_addError nat string
  | errorManager_removeErrors nat
  | errorManager_removeAllErrors
  | errorManager_reportErrors
  | logger_debug
  | logger_warn string nat string
  | logger_log string nat
  | document_on_change
  | document_removeListener_change

text \<open>
  The document as the AssetManager reads it: \<open>layers\<close> is the order in which
  \<^verbatim>\<open>document.layers.visit\<close> calls back (the top-level LayerGroup included), \<open>objects\<close>
  the heap of Layer objects.
\<close>

record document =
  document_id :: nat
  saved :: bool
  layers :: "nat list"
  objects :: heap
  assets_path :: "string option"

text \<open>
  The AssetManager instance from \<^verbatim>\<open>start()\<close> on: \<^verbatim>\<open>_init\<close> has run, so
  \<^verbatim>\<open>_renderPromises\<close> and \<^verbatim>\<open>_componentManager\<close> are objects, never \<^verbatim>\<open>null\<close>.
  \<open>renderPromises\<close> maps a component id to its promise (the index of the job in
  \<open>jobs\<close>), \<open>basePath\<close> is \<^verbatim>\<open>this._fileManager.basePath\<close>, \<open>listening\<close> says that
  \<^verbatim>\<open>_handleChange\<close> is registered on the document, \<open>calls\<close> is the trace.
\<close>

record 'c assetManager =
  renderPromises :: "nat obj"
  componentManager :: 'c
  basePath :: "string option"
  jobs :: "job list"
  listening :: bool
  calls :: "call list"

definition record_call :: "call \<Rightarrow> 'c assetManager \<Rightarrow> 'c assetManager" where
  "record_call e st = st\<lparr>calls := calls st @ [e]\<rparr>"

definition job_at :: "job list \<Rightarrow> nat \<Rightarrow> job option" where
  "job_at js j = (if j < length js then Some (js ! j) else None)"

text \<open>
  Modelled from the spec: the Render Dispatcher (lib/rendermanager.js), whose code is not
  part of the source under study. \<^verbatim>\<open>render(component)\<close> returns a new job, pending;
  \<^verbatim>\<open>cancel(componentId)\<close> and \<^verbatim>\<open>cancelAll(documentId)\<close> settle the pending jobs they
  name as cancelled (rejected with no error), and the handlers of a cancelled job run
  later, like those of any settled job: this is the settled-but-not-yet-cleared job of
  the spec (4.4), and the rejection without an error that line 231 logs as a
  cancellation.
\<close>

definition render :: "component \<Rightarrow> 'c assetManager \<Rightarrow> nat \<times> 'c assetManager" where
  "render c st =
     (length (jobs st),
      record_call (renderManager_render (component_id c))
        (st\<lparr>jobs := jobs st @ [\<lparr>job_component = c, promise = Pending, handled = False\<rparr>]\<rparr>))"

definition cancel_job :: "job \<Rightarrow> job" where
  "cancel_job jb = (if promise jb = Pending then jb\<lparr>promise := Settled (Rejected None)\<rparr> else jb)"

definition cancel :: "nat \<Rightarrow> 'c assetManager \<Rightarrow> 'c assetManager" where
  "cancel componentId st =
     record_call (renderManager_cancel componentId)
       (st\<lparr>jobs := map (\<lambda>jb. if component_id (job_component jb) = componentId
                                then cancel_job jb else jb) (jobs st)\<rparr>)"

definition cancelAll :: "document \<Rightarrow> 'c assetManager \<Rightarrow> 'c assetManager" where
  "cancelAll doc st =
     record_call (renderManager_cancelAll (document_id doc))
       (st\<lparr>jobs := map cancel_job (jobs st)\<rparr>)"

text \<open>
  Modelled from the spec: the Artifact Placer (lib/filemanager.js) exposes a base path,
  null until \<^verbatim>\<open>updateBasePath(document)\<close> sets it from the document.
\<close>

definition updateBasePath :: "document \<Rightarrow> 'c assetManager \<Rightarrow> 'c assetManager" where
  "updateBasePath doc st = record_call fileManager_updateBasePath (st\<lparr>basePath := assets_path doc\<rparr>)"

section \<open>The AssetManager\<close>

text \<open>\<^verbatim>\<open>_hasPendingRender(componentId)\<close>, lines 252-262.\<close>

definition hasPendingRender :: "'c assetManager \<Rightarrow> nat \<Rightarrow> bool" where
  "hasPendingRender st componentId =
     (case obj_get (renderPromises st) componentId of
        None \<Rightarrow> False
      | Some j \<Rightarrow> (case job_at (jobs st) j of
                    None \<Rightarrow> False
                  | Some jb \<Rightarrow> promise jb = Pending))"

text \<open>\<^verbatim>\<open>_cleanupDerivedComponents(componentId)\<close>, lines 103-111.\<close>

definition cleanupDerived :: "component \<Rightarrow> 'c assetManager \<Rightarrow> 'c assetManager" where
  "cleanupDerived derivedComponent st =
     record_call (fileManager_removeFileWithin (assetPath derivedComponent))
       (if hasPendingRender st (component_id derivedComponent)
        then cancel (component_id derivedComponent) st else st)"

definition cleanupDerivedComponents ::
  "'c ComponentManager \<Rightarrow> nat \<Rightarrow> 'c assetManager \<Rightarrow> 'c assetManager" where
  "cleanupDerivedComponents cm componentId st =
     fold cleanupDerived (getDerivedComponents cm (componentManager st) componentId) st"

text \<open>
  \<^verbatim>\<open>_cleanup()\<close>, lines 118-133. \<^verbatim>\<open>this._componentManager\<close> is an object in every state
  of the model, so the guard tests the base path.
\<close>

definition cleanup_layer :: "'c ComponentManager \<Rightarrow> heap \<Rightarrow> nat \<Rightarrow> 'c assetManager \<Rightarrow> 'c assetManager" where
  "cleanup_layer cm h l st =
     (if group (h l) = None then st
      else fold (cleanupDerivedComponents cm)
             (getComponentsByLayer cm (componentManager st) (layer_id (h l))) st)"

definition cleanup :: "'c ComponentManager \<Rightarrow> document \<Rightarrow> 'c assetManager \<Rightarrow> 'c assetManager" where
  "cleanup cm doc st =
     (if truthy (basePath st) then fold (cleanup_layer cm (objects doc)) (layers doc) st else st)"

text \<open>\<^verbatim>\<open>_requestRender(component)\<close>, lines 209-219; the handlers are \<open>runHandlers\<close> below.\<close>

definition requestRender :: "document \<Rightarrow> component \<Rightarrow> 'c assetManager \<Rightarrow> 'c assetManager" where
  "requestRender doc c st =
     (let (renderPromise, st1) = render c st;
          st2 = (if length (obj_keys (renderPromises st1)) = 0
                 then record_call (emit_active (document_id doc)) st1 else st1)
      in st2\<lparr>renderPromises := obj_set (component_id c) renderPromise (renderPromises st2)\<rparr>)"

text \<open>
  The handlers of lines 220-242, run once for a settled promise: \<^verbatim>\<open>then\<close> or \<^verbatim>\<open>fail\<close>
  by the outcome, and \<^verbatim>\<open>finally\<close>.
\<close>

fun str :: "string option \<Rightarrow> string" where
  "str None = []"
| "str (Some s) = s"

fun settled :: "component \<Rightarrow> outcome \<Rightarrow> 'c assetManager \<Rightarrow> 'c assetManager" where
  "settled c (Fulfilled tmpPath) st =
     (if truthy tmpPath then record_call (fileManager_moveFileInto (str tmpPath) (assetPath c)) st
      else st)"
| "settled c (Rejected err) st =
     (if truthy err
      then record_call (logger_warn (component_name c) (component_layer_id c) (str err)) st
      else record_call (logger_log (component_name c) (component_layer_id c)) st)"

definition on_finally :: "document \<Rightarrow> component \<Rightarrow> 'c assetManager \<Rightarrow> 'c assetManager" where
  "on_finally doc c st =
     (let st1 = st\<lparr>renderPromises := obj_delete (component_id c) (renderPromises st)\<rparr>
      in if length (obj_keys (renderPromises st1)) = 0
         then record_call (emit_idle (document_id doc)) st1 else st1)"

definition runHandlers :: "document \<Rightarrow> nat \<Rightarrow> 'c assetManager \<Rightarrow> 'c assetManager" where
  "runHandlers doc j st =
     (case job_at (jobs st) j of
        None \<Rightarrow> st
      | Some jb \<Rightarrow>
          (case promise jb of
             Pending \<Rightarrow> st
           | Settled out \<Rightarrow>
               if handled jb then st
               else on_finally doc (job_component jb)
                      (settled (job_component jb) out
                         (st\<lparr>jobs := (jobs st)[j := jb\<lparr>handled := True\<rparr>]\<rparr>))))"

text \<open>The Render Dispatcher settles a pending job with an outcome of its own.\<close>

definition resolveJob :: "nat \<Rightarrow> outcome \<Rightarrow> 'c assetManager \<Rightarrow> 'c assetManager" where
  "resolveJob j out st =
     (case job_at (jobs st) j of
        None \<Rightarrow> st
      | Some jb \<Rightarrow>
          if promise jb = Pending then st\<lparr>jobs := (jobs st)[j := jb\<lparr>promise := Settled out\<rparr>]\<rparr>
          else st)"

text \<open>\<^verbatim>\<open>_init()\<close>, lines 142-190.\<close>

definition addError :: "heap \<Rightarrow> nat \<Rightarrow> string \<Rightarrow> 'c assetManager \<Rightarrow> 'c assetManager" where
  "addError h l message st = record_call (errorManager_addError (layer_id (h l)) message) st"

definition init_result ::
  "'c ComponentManager \<Rightarrow> heap \<Rightarrow> nat \<Rightarrow> result \<Rightarrow> 'c assetManager \<times> bool \<Rightarrow> 'c assetManager \<times> bool" where
  "init_result cm h l r acc =
     (case acc of (st, hasValidComponent) \<Rightarrow>
        (case component r of
           Some c \<Rightarrow>
             (case addComponent cm (componentManager st) h l c of
                Inr (componentId, catalog) \<Rightarrow> (st\<lparr>componentManager := catalog\<rparr>, True)
              | Inl message \<Rightarrow> (addError h l message st, hasValidComponent))
         | None \<Rightarrow>
             (case errors r of
                Some es \<Rightarrow> (fold (addError h l) es st, hasValidComponent)
              | None \<Rightarrow> (st, hasValidComponent))))"

definition init_layer ::
  "'c ComponentManager \<Rightarrow> heap \<Rightarrow> nat \<Rightarrow> 'c assetManager \<times> nat list \<Rightarrow> 'c assetManager \<times> nat list" where
  "init_layer cm h l acc =
     (case acc of (st, layerIdsWithComponents) \<Rightarrow>
        if group (h l) = None then (st, layerIdsWithComponents)
        else (case fold (init_result cm h l) (findAllComponents cm (componentManager st) h l) (st, False) of
                (st1, hasValidComponent) \<Rightarrow>
                  (st1, if hasValidComponent then layerIdsWithComponents @ [layer_id (h l)]
                        else layerIdsWithComponents)))"

definition renderDerived ::
  "'c ComponentManager \<Rightarrow> document \<Rightarrow> nat \<Rightarrow> 'c assetManager \<Rightarrow> 'c assetManager" where
  "renderDerived cm doc componentId st =
     fold (requestRender doc) (getDerivedComponents cm (componentManager st) componentId) st"

definition renderLayer ::
  "'c ComponentManager \<Rightarrow> document \<Rightarrow> nat \<Rightarrow> 'c assetManager \<Rightarrow> 'c assetManager" where
  "renderLayer cm doc layerId st =
     fold (\<lambda>c. renderDerived cm doc (component_id c))
       (getBasicComponentsByLayer cm (componentManager st) layerId) st"

definition init :: "'c ComponentManager \<Rightarrow> document \<Rightarrow> 'c assetManager \<Rightarrow> 'c assetManager" where
  "init cm doc st =
     (let st1 = st\<lparr>renderPromises := [], componentManager := new_ComponentManager cm\<rparr>;
          st2 = updateBasePath doc st1;
          st3 = record_call errorManager_removeAllErrors st2;
          st4 = cancelAll doc st3;
          (st5, layerIdsWithComponents) = fold (init_layer cm (objects doc)) (layers doc) (st4, []);
          st6 = record_call errorManager_reportErrors st5
      in fold (renderLayer cm doc) layerIdsWithComponents st6)"

text \<open>\<^verbatim>\<open>_reset()\<close>, lines 198-201.\<close>

definition reset :: "'c ComponentManager \<Rightarrow> document \<Rightarrow> 'c assetManager \<Rightarrow> 'c assetManager" where
  "reset cm doc st = init cm doc (cleanup cm doc st)"

text \<open>
  \<^verbatim>\<open>_handleChange(change)\<close>, lines 291-423. \<open>change_file\<close> is \<^verbatim>\<open>change.file\<close> when
  present, with its \<^verbatim>\<open>previousSaved\<close> property when it has one; \<open>change_resolution\<close>
  is the truth value of \<^verbatim>\<open>change.resolution\<close>; \<open>change_layers\<close> is \<^verbatim>\<open>change.layers\<close>.
\<close>

record fileChange =
  previousSaved :: "bool option"

record change =
  change_file :: "fileChange option"
  change_resolution :: bool
  change_layers :: "layerChange obj option"

text \<open>Lines 327-352: the specifications of the layers in the closure.\<close>

definition parse_result ::
  "heap \<Rightarrow> nat \<Rightarrow> result \<Rightarrow> 'c assetManager \<times> componentSpec list \<Rightarrow> 'c assetManager \<times> componentSpec list" where
  "parse_result h l r acc =
     (case acc of (st, validSpecifications) \<Rightarrow>
        (case component r of
           Some c \<Rightarrow> (st, validSpecifications @ [c])
         | None \<Rightarrow>
             (case errors r of
                Some es \<Rightarrow> (fold (addError h l) es st, validSpecifications)
              | None \<Rightarrow> (st, validSpecifications))))"

definition parse_layer ::
  "'c ComponentManager \<Rightarrow> heap \<Rightarrow> nat \<times> nat \<Rightarrow> 'c assetManager \<times> componentSpec list obj
     \<Rightarrow> 'c assetManager \<times> componentSpec list obj" where
  "parse_layer cm h entry acc =
     (case entry of (layerId, l) \<Rightarrow>
      case acc of (st, specifications) \<Rightarrow>
        (let st1 = record_call (errorManager_removeErrors layerId) st in
         case fold (parse_result h l) (findAllComponents cm (componentManager st1) h l) (st1, []) of
           (st2, validSpecifications) \<Rightarrow>
             (st2, if length validSpecifications > 0
                   then obj_set (layer_id (h l)) validSpecifications specifications
                   else specifications)))"

definition specificationsByLayer ::
  "'c ComponentManager \<Rightarrow> heap \<Rightarrow> nat obj \<Rightarrow> 'c assetManager \<Rightarrow> 'c assetManager \<times> componentSpec list obj" where
  "specificationsByLayer cm h dl st = fold (parse_layer cm h) dl (st, [])"

text \<open>Lines 356-367.\<close>

definition resetRequired :: "heap \<Rightarrow> nat obj \<Rightarrow> componentSpec list obj \<Rightarrow> bool" where
  "resetRequired h dl specs =
     list_ex (\<lambda>(layerId, specifications).
        (case obj_get dl layerId of Some l \<Rightarrow> adjustment (h l) | None \<Rightarrow> False)
        \<or> list_ex has_default specifications) specs"

text \<open>Lines 376-384: the removed layers, and their specifications discarded.\<close>

definition removedLayerIds :: "layerChange obj \<Rightarrow> nat list" where
  "removedLayerIds ls = map fst (filter (\<lambda>(layerId, layerChange). type layerChange = removed) ls)"

definition discardRemoved :: "layerChange obj \<Rightarrow> componentSpec list obj \<Rightarrow> componentSpec list obj" where
  "discardRemoved ls specs =
     fold (\<lambda>(layerId, layerChange) specs.
             if type layerChange = removed then obj_delete layerId specs else specs) ls specs"

text \<open>Lines 389-394 and 402-407: the components of a layer are cleaned up and removed.\<close>

definition removeLayerComponents ::
  "'c ComponentManager \<Rightarrow> nat \<Rightarrow> 'c assetManager \<Rightarrow> 'c assetManager" where
  "removeLayerComponents cm layerId st =
     fold (\<lambda>componentId st.
             (let st1 = cleanupDerivedComponents cm componentId st
              in st1\<lparr>componentManager := removeComponent cm (componentManager st1) componentId\<rparr>))
       (getComponentsByLayer cm (componentManager st) layerId) st"

definition removeLayer :: "'c ComponentManager \<Rightarrow> nat \<Rightarrow> 'c assetManager \<Rightarrow> 'c assetManager" where
  "removeLayer cm layerId st =
     record_call (errorManager_removeErrors layerId) (removeLayerComponents cm layerId st)"

text \<open>
  Lines 409-418: one new specification is added and its derived components rendered, or
  the exception of \<^verbatim>\<open>addComponent\<close> becomes an error of the layer.
\<close>

definition addCurrent ::
  "'c ComponentManager \<Rightarrow> document \<Rightarrow> nat \<Rightarrow> componentSpec \<Rightarrow> 'c assetManager \<Rightarrow> 'c assetManager" where
  "addCurrent cm doc l c st =
     (case addComponent cm (componentManager st) (objects doc) l c of
        Inr (componentId, catalog) \<Rightarrow> renderDerived cm doc componentId (st\<lparr>componentManager := catalog\<rparr>)
      | Inl message \<Rightarrow> addError (objects doc) l message st)"

text \<open>
  Lines 399-419. Every key of \<^verbatim>\<open>specificationsByLayer\<close> is a key of
  \<^verbatim>\<open>dependentLayers\<close>; were one not, no specification would be added for it.
\<close>

definition updateLayer ::
  "'c ComponentManager \<Rightarrow> document \<Rightarrow> nat obj \<Rightarrow> nat \<times> componentSpec list \<Rightarrow> 'c assetManager \<Rightarrow> 'c assetManager" where
  "updateLayer cm doc dl entry st =
     (case entry of (layerId, currentComponents) \<Rightarrow>
        (let st1 = removeLayerComponents cm layerId st in
         case obj_get dl layerId of
           None \<Rightarrow> st1
         | Some l \<Rightarrow> fold (addCurrent cm doc l) currentComponents st1))"

text \<open>Lines 326-421, after the closure \<open>dl\<close> of the changed layers \<open>ls\<close> is computed.\<close>

definition handleLayers ::
  "'c ComponentManager \<Rightarrow> document \<Rightarrow> layerChange obj \<Rightarrow> nat obj \<Rightarrow> 'c assetManager \<Rightarrow> 'c assetManager" where
  "handleLayers cm doc ls dl st =
     (case specificationsByLayer cm (objects doc) dl st of
        (st1, specs) \<Rightarrow>
          if resetRequired (objects doc) dl specs then reset cm doc st1
          else (let specs1 = discardRemoved ls specs;
                    st2 = fold (removeLayer cm) (removedLayerIds ls) st1;
                    st3 = fold (updateLayer cm doc dl) specs1 st2
                in record_call errorManager_reportErrors st3))"

definition handleChange ::
  "'c ComponentManager \<Rightarrow> document \<Rightarrow> change \<Rightarrow> 'c assetManager \<Rightarrow> 'c assetManager option" where
  "handleChange cm doc change st =
     (let st0 = record_call logger_debug st in
      if (case change_file change of
            Some f \<Rightarrow> saved doc \<and> previousSaved f = None
          | None \<Rightarrow> False)
      then Some st0
      else (let st1 = (if change_file change \<noteq> None then updateBasePath doc st0 else st0);
                st2 = (if change_resolution change then reset cm doc st1 else st1)
            in case change_layers change of
                 None \<Rightarrow> Some st2
               | Some ls \<Rightarrow>
                   do { dl \<leftarrow> dependentLayers (objects doc) ls [];
                        Some (handleLayers cm doc ls dl st2) }))"

text \<open>
  \<^verbatim>\<open>start()\<close> and \<^verbatim>\<open>stop()\<close>, lines 430-444. \<open>new_AssetManager\<close> is the instance the
  constructor leaves: \<^verbatim>\<open>start()\<close> runs \<^verbatim>\<open>_init\<close>, which replaces the job table and the
  catalog before anything reads them.
\<close>

definition new_AssetManager :: "'c ComponentManager \<Rightarrow> 'c assetManager" where
  "new_AssetManager cm =
     \<lparr>renderPromises = [], componentManager = new_ComponentManager cm, basePath = None,
      jobs = [], listening = False, calls = []\<rparr>"

definition start :: "'c ComponentManager \<Rightarrow> document \<Rightarrow> 'c assetManager \<Rightarrow> 'c assetManager" where
  "start cm doc st = init cm doc (record_call document_on_change (st\<lparr>listening := True\<rparr>))"

definition stop :: "document \<Rightarrow> 'c assetManager \<Rightarrow> 'c assetManager" where
  "stop doc st =
     record_call fileManager_cancelAll
       (cancelAll doc (record_call document_removeListener_change (st\<lparr>listening := False\<rparr>)))"

section \<open>Runs\<close>

text \<open>
  What happens to a started AssetManager, one turn of the event loop at a time: the
  document emits a change (delivered to \<^verbatim>\<open>_handleChange\<close> while it is registered), the
  Render Dispatcher settles a job, the handlers of a settled job run, or \<^verbatim>\<open>stop()\<close> is
  called. A run has no result when \<^verbatim>\<open>_handleChange\<close> does not return.
\<close>

datatype turn =
    Change document change
  | Resolve nat outcome
  | Handlers nat
  | Stop

fun step :: "'c ComponentManager \<Rightarrow> turn \<Rightarrow> document \<times> 'c assetManager \<Rightarrow> (document \<times> 'c assetManager) option" where
  "step cm (Change d c) (doc, st) =
     (if listening st then map_option (Pair d) (handleChange cm d c st) else Some (d, st))"
| "step cm (Resolve j out) (doc, st) = Some (doc, resolveJob j out st)"
| "step cm (Handlers j) (doc, st) = Some (doc, runHandlers doc j st)"
| "step cm Stop (doc, st) = Some (doc, stop doc st)"

fun run :: "'c ComponentManager \<Rightarrow> turn list \<Rightarrow> document \<times> 'c assetManager \<Rightarrow> (document \<times> 'c assetManager) option" where
  "run cm [] w = Some w"
| "run cm (s # ss) w = (case step cm s w of None \<Rightarrow> None | Some w1 \<Rightarrow> run cm ss w1)"

section \<open>Notions used in the properties\<close>

text \<open>Kinds of calls in the trace.\<close>

definition is_moveFileInto :: "call \<Rightarrow> bool" where
  "is_moveFileInto e = (case e of fileManager_moveFileInto p a \<Rightarrow> True | _ \<Rightarrow> False)"

definition is_addError :: "call \<Rightarrow> bool" where
  "is_addError e = (case e of errorManager_addError l m \<Rightarrow> True | _ \<Rightarrow> False)"

definition is_warn :: "call \<Rightarrow> bool" where
  "is_warn e = (case e of logger_warn n l m \<Rightarrow> True | _ \<Rightarrow> False)"

definition is_cancel :: "call \<Rightarrow> bool" where
  "is_cancel e = (case e of renderManager_cancel i \<Rightarrow> True | _ \<Rightarrow> False)"

definition is_removeFileWithin :: "call \<Rightarrow> bool" where
  "is_removeFileWithin e = (case e of fileManager_removeFileWithin p \<Rightarrow> True | _ \<Rightarrow> False)"


definition is_signal :: "call \<Rightarrow> bool" where
  "is_signal e = (case e of emit_active d \<Rightarrow> True | emit_idle d \<Rightarrow> True | _ \<Rightarrow> False)"

text \<open>
  The calls of the parsing, the removal pass, the update pass and the final report: a
  reset makes calls that are none of these.
\<close>

definition incremental :: "call \<Rightarrow> bool" where
  "incremental e =
     (case e of
        renderManager_cancel i \<Rightarrow> True
      | fileManager_removeFileWithin p \<Rightarrow> True
      | errorManager_removeErrors i \<Rightarrow> True
      | errorManager_addError i m \<Rightarrow> True
      | renderManager_render i \<Rightarrow> True
      | emit_active d \<Rightarrow> True
      | errorManager_reportErrors \<Rightarrow> True
      | _ \<Rightarrow> False)"

text \<open>
  An operation emits \<open>P\<close> when it only adds elements at the end of a list of the state (the
  trace of calls, the jobs), and every element it adds satisfies \<open>P\<close>; \<open>tr\<close> reads the list
  off the value the operation works on.
\<close>

definition emits :: "('s \<Rightarrow> 'e list) \<Rightarrow> ('e \<Rightarrow> bool) \<Rightarrow> ('s \<Rightarrow> 's) \<Rightarrow> bool" where
  "emits tr P f = (\<forall>s. \<exists>new. tr (f s) = tr s @ new \<and> list_all P new)"

text \<open>
  The job table is well formed when every entry names a job of \<open>jobs\<close> that renders the
  component the entry is stored under, as \<^verbatim>\<open>_requestRender\<close> stores it.
\<close>

definition table_ok :: "'c assetManager \<Rightarrow> bool" where
  "table_ok st =
     list_all (\<lambda>(i, j). case job_at (jobs st) j of
                           Some jb \<Rightarrow> component_id (job_component jb) = i
                         | None \<Rightarrow> False) (renderPromises st)"

text \<open>The invariant of the job table: ascending keys, each naming a job of its own component id.\<close>

definition table_inv :: "'c assetManager \<Rightarrow> bool" where
  "table_inv st = (sorted_wrt (<) (obj_keys (renderPromises st)) \<and> table_ok st)"

text \<open>The calls of \<^verbatim>\<open>_cleanupDerivedComponents\<close> on derived components \<open>ds\<close>, when \<open>P\<close> holds of the ids with a pending render.\<close>

fun cleanup_calls :: "(nat \<Rightarrow> bool) \<Rightarrow> component list \<Rightarrow> call list" where
  "cleanup_calls P [] = []"
| "cleanup_calls P (d # ds) =
     (if P (component_id d) then [renderManager_cancel (component_id d)] else [])
     @ fileManager_removeFileWithin (assetPath d)
     # cleanup_calls (\<lambda>i. P i \<and> i \<noteq> component_id d) ds"

text \<open>
  Lines 294-304 of \<^verbatim>\<open>_handleChange\<close>: the rename that is ignored, and the state in which
  the layers of a change are processed otherwise.
\<close>

definition ignoredRename :: "document \<Rightarrow> change \<Rightarrow> bool" where
  "ignoredRename doc change =
     (case change_file change of Some f \<Rightarrow> saved doc \<and> previousSaved f = None | None \<Rightarrow> False)"

definition beforeLayers :: "'c ComponentManager \<Rightarrow> document \<Rightarrow> change \<Rightarrow> 'c assetManager \<Rightarrow> 'c assetManager" where
  "beforeLayers cm doc change st =
     (let st0 = record_call logger_debug st;
          st1 = (if change_file change \<noteq> None then updateBasePath doc st0 else st0)
      in if change_resolution change then reset cm doc st1 else st1)"

text \<open>The valid specifications a layer yields: the components among the results of \<^verbatim>\<open>findAllComponents\<close>.\<close>

definition validSpecifications :: "'c ComponentManager \<Rightarrow> 'c \<Rightarrow> heap \<Rightarrow> nat \<Rightarrow> componentSpec list" where
  "validSpecifications cm catalog h l = List.map_filter component (findAllComponents cm catalog h l)"

text \<open>
  The escalation condition in the words of the spec (4.6 c): some layer of the closure
  that yielded at least one valid specification is an adjustment layer, or one of its new
  specifications is flagged default.
\<close>

definition escalates :: "'c ComponentManager \<Rightarrow> 'c \<Rightarrow> heap \<Rightarrow> nat obj \<Rightarrow> bool" where
  "escalates cm catalog h dl =
     list_ex (\<lambda>(layerId, l).
        validSpecifications cm catalog h l \<noteq> []
        \<and> (adjustment (h l) \<or> list_ex has_default (validSpecifications cm catalog h l))) dl"

text \<open>The object built by lines 327-352, from the valid specifications \<open>V\<close> of each layer.\<close>

definition collect :: "heap \<Rightarrow> (nat \<Rightarrow> componentSpec list) \<Rightarrow> nat obj \<Rightarrow> componentSpec list obj \<Rightarrow> componentSpec list obj" where
  "collect h V dl specs =
     fold (\<lambda>(layerId, l) specs. if V l \<noteq> [] then obj_set (layer_id (h l)) (V l) specs else specs) dl specs"

subsection \<open>Render requests and settlements\<close>

text \<open>
  A sequence of render requests and settlements on one AssetManager: a request is a call
  of \<^verbatim>\<open>_requestRender\<close>; a settlement is the Render Dispatcher settling a job (unless it
  is settled already, by a cancellation) followed by the job's handlers.
\<close>

datatype render_event = Requested component | Settles nat outcome

fun handle_event :: "document \<Rightarrow> render_event \<Rightarrow> 'c assetManager \<Rightarrow> 'c assetManager" where
  "handle_event doc (Requested c) st = requestRender doc c st"
| "handle_event doc (Settles j out) st = runHandlers doc j (resolveJob j out st)"

text \<open>The component ids of the jobs in flight: those whose handlers have not run.\<close>

definition in_flight :: "'c assetManager \<Rightarrow> nat list" where
  "in_flight st = map (\<lambda>jb. component_id (job_component jb)) (filter (\<lambda>jb. \<not> handled jb) (jobs st))"

text \<open>
  A sequence is well sequenced when every request is for a component id with no job in
  flight and every settlement is of a job in flight.
\<close>

fun well_sequenced :: "document \<Rightarrow> 'c assetManager \<Rightarrow> render_event list \<Rightarrow> bool" where
  "well_sequenced doc st [] = True"
| "well_sequenced doc st (Requested c # evs) =
     (component_id c \<notin> set (in_flight st) \<and> well_sequenced doc (handle_event doc (Requested c) st) evs)"
| "well_sequenced doc st (Settles j out # evs) =
     ((case job_at (jobs st) j of Some jb \<Rightarrow> \<not> handled jb | None \<Rightarrow> False)
      \<and> well_sequenced doc (handle_event doc (Settles j out) st) evs)"

text \<open>The job table and the jobs in flight agree: one entry per job in flight, under its component id.\<close>

definition in_sync :: "'c assetManager \<Rightarrow> bool" where
  "in_sync st =
     (sorted_wrt (<) (obj_keys (renderPromises st)) \<and> distinct (in_flight st)
      \<and> set (obj_keys (renderPromises st)) = set (in_flight st))"

text \<open>
  The signals the spec asks for (I3, P3), from the number \<open>n\<close> of jobs in flight: active on
  a request that finds none, idle on a settlement that leaves none.
\<close>

fun edge_triggered :: "document \<Rightarrow> nat \<Rightarrow> render_event list \<Rightarrow> call list" where
  "edge_triggered doc n [] = []"
| "edge_triggered doc n (Requested c # evs) =
     (if n = 0 then [emit_active (document_id doc)] else []) @ edge_triggered doc (Suc n) evs"
| "edge_triggered doc n (Settles j out # evs) =
     (if n = 1 then [emit_idle (document_id doc)] else []) @ edge_triggered doc (n - 1) evs"

text \<open>What is observed of a run: the signals emitted, the job table and the component ids in flight.\<close>

definition observed :: "document \<times> 'c assetManager \<Rightarrow> call list \<times> nat obj \<times> nat list" where
  "observed w = (filter is_signal (calls (snd w)), renderPromises (snd w), in_flight (snd w))"

section \<open>A catalog to run the model on\<close>

text \<open>
  Modelled from the spec: a Component Catalog with the interface of section 6, standing
  in for lib/componentmanager.js on concrete documents. A layer name is a list of file
  names separated by commas; each becomes one basic component with one derived
  component of the same id, whose asset path is the file name. An empty file name is a
  parse error, a file name that starts with \<^verbatim>\<open>default\<close> is a default specification, and
  adding a file name that the catalog already holds fails. Identifiers are assigned on
  creation, counting from 1 in each catalog instance.
\<close>

record catalog =
  next_id :: nat
  entries :: "(nat \<times> nat \<times> componentSpec) list"

fun split_commas :: "string \<Rightarrow> string \<Rightarrow> string list" where
  "split_commas acc [] = [acc]"
| "split_commas acc (c # cs) =
     (if c = CHR '','' then acc # split_commas [] cs else split_commas (acc @ [c]) cs)"

definition parse_name :: "string \<Rightarrow> result" where
  "parse_name s =
     (if s = [] then \<lparr>component = None, errors = Some [''empty file name'']\<rparr>
      else \<lparr>component = Some \<lparr>spec_name = s, has_default = (take 7 s = ''default'')\<rparr>,
            errors = None\<rparr>)"

definition catalog_findAll :: "catalog \<Rightarrow> heap \<Rightarrow> nat \<Rightarrow> result list" where
  "catalog_findAll c h l =
     (case name (h l) of None \<Rightarrow> [] | Some s \<Rightarrow> if s = [] then [] else map parse_name (split_commas [] s))"

definition catalog_add :: "catalog \<Rightarrow> heap \<Rightarrow> nat \<Rightarrow> componentSpec \<Rightarrow> string + nat \<times> catalog" where
  "catalog_add c h l s =
     (if list_ex (\<lambda>(i, layerId, s1). spec_name s1 = spec_name s) (entries c)
      then Inl (''duplicate file name: '' @ spec_name s)
      else Inr (next_id c,
                c\<lparr>next_id := Suc (next_id c),
                  entries := entries c @ [(next_id c, layer_id (h l), s)]\<rparr>))"

definition catalog_remove :: "catalog \<Rightarrow> nat \<Rightarrow> catalog" where
  "catalog_remove c componentId = c\<lparr>entries := filter (\<lambda>(i, layerId, s). i \<noteq> componentId) (entries c)\<rparr>"

definition catalog_component :: "nat \<times> nat \<times> componentSpec \<Rightarrow> component" where
  "catalog_component e =
     (case e of (i, layerId, s) \<Rightarrow>
        \<lparr>component_id = i, component_name = spec_name s, assetPath = spec_name s,
         component_layer_id = layerId\<rparr>)"

definition catalog_byLayer :: "catalog \<Rightarrow> nat \<Rightarrow> component list" where
  "catalog_byLayer c layerId =
     map catalog_component (filter (\<lambda>(i, layerId1, s). layerId1 = layerId) (entries c))"

definition catalog_derived :: "catalog \<Rightarrow> nat \<Rightarrow> component list" where
  "catalog_derived c componentId =
     map catalog_component (filter (\<lambda>(i, layerId, s). i = componentId) (entries c))"

definition Catalog :: "catalog ComponentManager" where
  "Catalog =
     \<lparr>new_ComponentManager = \<lparr>next_id = 1, entries = []\<rparr>,
      findAllComponents = catalog_findAll,
      addComponent = catalog_add,
      removeComponent = catalog_remove,
      getComponentsByLayer = (\<lambda>c layerId. map component_id (catalog_byLayer c layerId)),
      getBasicComponentsByLayer = catalog_byLayer,
      getDerivedComponents = catalog_derived\<rparr>"

section \<open>Concrete documents and states\<close>

text \<open>
  In \<open>icon_doc\<close> the top-level group (reference 0) holds one layer named \<^verbatim>\<open>icon.png\<close>
  (reference 1, layer id 1); in \<open>levels_doc\<close> that layer is an adjustment layer named
  \<^verbatim>\<open>levels.png\<close>.
\<close>

definition mk_layer :: "nat \<Rightarrow> string option \<Rightarrow> nat option \<Rightarrow> bool \<Rightarrow> layer" where
  "mk_layer i n g a = \<lparr>layer_id = i, name = n, group = g, adjustment = a\<rparr>"

definition icon_heap :: heap where
  "icon_heap l = (if l = 1 then mk_layer 1 (Some ''icon.png'') (Some 0) False
                  else mk_layer 0 None None False)"

definition icon_doc :: document where
  "icon_doc = \<lparr>document_id = 7, saved = True, layers = [0, 1], objects = icon_heap,
               assets_path = Some ''/doc-assets''\<rparr>"

definition levels_heap :: heap where
  "levels_heap l = (if l = 1 then mk_layer 1 (Some ''levels.png'') (Some 0) True
                    else mk_layer 0 None None False)"

definition levels_doc :: document where
  "levels_doc = \<lparr>document_id = 7, saved = True, layers = [0, 1], objects = levels_heap,
                 assets_path = Some ''/doc-assets''\<rparr>"

text \<open>
  A chain of five layers: \<^verbatim>\<open>a.png\<close> (reference 4) in \<^verbatim>\<open>b\<close> (3) in an unnamed group (2)
  in \<^verbatim>\<open>e\<close> (1) in the top-level group (0); and two layers that are each other's group.
\<close>

definition p4_heap :: heap where
  "p4_heap l =
     (if l = 4 then mk_layer 14 (Some ''a.png'') (Some 3) False
      else if l = 3 then mk_layer 13 (Some ''b'') (Some 2) False
      else if l = 2 then mk_layer 12 None (Some 1) False
      else if l = 1 then mk_layer 11 (Some ''e'') (Some 0) False
      else mk_layer 10 None None False)"

definition loop_heap :: heap where
  "loop_heap l = mk_layer l (Some ''a.png'') (Some (if l = 0 then 1 else 0)) False"

text \<open>The AssetManager after \<^verbatim>\<open>start()\<close> on \<open>icon_doc\<close>: one render in flight.\<close>

definition icon_component :: component where
  "icon_component =
     \<lparr>component_id = 1, component_name = ''icon.png'', assetPath = ''icon.png'', component_layer_id = 1\<rparr>"

definition other_component :: component where
  "other_component =
     \<lparr>component_id = 2, component_name = ''logo.png'', assetPath = ''logo.png'', component_layer_id = 2\<rparr>"

definition rendering_icon :: "catalog assetManager" where
  "rendering_icon =
     \<lparr>renderPromises = [(1, 0)],
      componentManager = \<lparr>next_id = 2, entries = [(1, 1, \<lparr>spec_name = ''icon.png'', has_default = False\<rparr>)]\<rparr>,
      basePath = Some ''/doc-assets'',
      jobs = [\<lparr>job_component = icon_component, promise = Pending, handled = False\<rparr>],
      listening = True,
      calls = [document_on_change, fileManager_updateBasePath, errorManager_removeAllErrors,
               renderManager_cancelAll 7, errorManager_reportErrors, renderManager_render 1,
               emit_active 7]\<rparr>"

definition levels_rendering :: "catalog assetManager" where
  "levels_rendering = start Catalog levels_doc (new_AssetManager Catalog)"

text \<open>An AssetManager whose one job is fulfilled and whose handlers have not run.\<close>

definition settled_job :: "unit assetManager" where
  "settled_job =
     \<lparr>renderPromises = [(1, 0)], componentManager = (), basePath = Some ''/doc-assets'',
      jobs = [\<lparr>job_component = \<lparr>component_id = 1, component_name = ''icon.png'',
                                assetPath = ''icon.png'', component_layer_id = 1\<rparr>,
               promise = Settled (Fulfilled (Some ''/tmp/x'')), handled = False\<rparr>],
      listening = True, calls = []\<rparr>"

text \<open>An AssetManager with no job yet.\<close>

definition no_jobs :: "unit assetManager" where
  "no_jobs =
     \<lparr>renderPromises = [], componentManager = (), basePath = Some ''/doc-assets'', jobs = [],
      listening = True, calls = []\<rparr>"

text \<open>Two specifications of a layer.\<close>

definition a_spec :: componentSpec where
  "a_spec = \<lparr>spec_name = ''a.png'', has_default = False\<rparr>"

definition b_spec :: componentSpec where
  "b_spec = \<lparr>spec_name = ''b.png'', has_default = False\<rparr>"

text \<open>A change of \<open>icon_doc\<close> that carries a resolution change and a change of layer 1.\<close>

definition resolution_and_layer :: change where
  "resolution_and_layer =
     \<lparr>change_file = None, change_resolution = True,
      change_layers = Some [(1, \<lparr>type = modified, layer = 1\<rparr>)]\<rparr>"

text \<open>A change of layer 1 alone.\<close>

definition layer_modified :: change where
  "layer_modified =
     \<lparr>change_file = None, change_resolution = False,
      change_layers = Some [(1, \<lparr>type = modified, layer = 1\<rparr>)]\<rparr>"

text \<open>
  In \<open>two_doc\<close> the top-level group holds two layers, \<^verbatim>\<open>icon.png\<close> and \<^verbatim>\<open>logo.png\<close>
  (references and layer ids 1 and 2).
\<close>

definition two_heap :: heap where
  "two_heap l = (if l = 1 then mk_layer 1 (Some ''icon.png'') (Some 0) False
                 else if l = 2 then mk_layer 2 (Some ''logo.png'') (Some 0) False
                 else mk_layer 0 None None False)"

definition two_doc :: document where
  "two_doc = \<lparr>document_id = 7, saved = True, layers = [0, 1, 2], objects = two_heap,
              assets_path = Some ''/doc-assets''\<rparr>"

text \<open>A change of the resolution alone.\<close>

definition resolution_only :: change where
  "resolution_only = \<lparr>change_file = None, change_resolution = True, change_layers = None\<rparr>"

section \<open>Properties of the objects\<close>

lemma obj_get_set: "obj_get (obj_set k v ob) k' = (if k' = k then Some v else obj_get ob k')"
  by (induction ob) auto

lemma obj_keys_Nil [simp]: "obj_keys [] = []"
  by (simp add: obj_keys_def)

lemma obj_keys_Cons [simp]: "obj_keys ((k, v) # ob) = k # obj_keys ob"
  by (simp add: obj_keys_def)

lemma obj_keys_set: "set (obj_keys (obj_set k v ob)) = insert k (set (obj_keys ob))"
  by (induction k v ob rule: obj_set.induct) auto

lemma obj_set_sorted:
  "sorted_wrt (<) (obj_keys ob) \<Longrightarrow> sorted_wrt (<) (obj_keys (obj_set k v ob))"
  by (induction k v ob rule: obj_set.induct) (auto simp: obj_keys_set)

lemma obj_get_None: "obj_get ob k = None \<longleftrightarrow> k \<notin> set (obj_keys ob)"
  by (induction ob k rule: obj_get.induct) auto

lemma obj_get_mem: "obj_get ob k = Some v \<Longrightarrow> (k, v) \<in> set ob"
  by (induction ob k rule: obj_get.induct) (auto split: if_splits)

lemma obj_mem_keys: "(k, v) \<in> set ob \<Longrightarrow> k \<in> set (obj_keys ob)"
  by (force simp: obj_keys_def)

lemma obj_mem_get: "distinct (obj_keys ob) \<Longrightarrow> (k, v) \<in> set ob \<Longrightarrow> obj_get ob k = Some v"
  by (induction ob k rule: obj_get.induct) (auto dest: obj_mem_keys)

lemma obj_keys_delete: "set (obj_keys (obj_delete k ob)) = set (obj_keys ob) - {k}"
  by (induction k ob rule: obj_delete.induct) auto

lemma obj_delete_sorted:
  "sorted_wrt (<) (obj_keys ob) \<Longrightarrow> sorted_wrt (<) (obj_keys (obj_delete k ob))"
  by (induction k ob rule: obj_delete.induct) (auto simp: obj_keys_delete)

lemma obj_get_delete: "obj_get (obj_delete k ob) k' = (if k' = k then None else obj_get ob k')"
  by (induction k ob rule: obj_delete.induct) auto

lemma sorted_keys_distinct: "sorted_wrt (<) (obj_keys ob) \<Longrightarrow> distinct (obj_keys ob)"
  by (simp add: strict_sorted_iff)


section \<open>The ancestor walk\<close>

lemma chain_getDependentLayers:
  "chain h l ls \<Longrightarrow> getDependentLayers h l = Some (filter (named h) ls)"
proof (induction rule: chain.induct)
  case (chain_root h l)
  then show ?case by (subst getDependentLayers.simps) (simp add: named_def)
next
  case (chain_step h l g ls)
  then show ?case by (subst getDependentLayers.simps) (simp add: named_def[abs_def])
qed

lemma getDependentLayers_chain:
  assumes "getDependentLayers h l = Some ds"
  shows "\<exists>ls. chain h l ls"
proof (rule getDependentLayers.raw_induct[where P = "\<lambda>h l ds. \<exists>ls. chain h l ls", OF _ assms])
  fix f :: "heap \<Rightarrow> nat \<Rightarrow> nat list option" and h l ds
  assume IH: "\<And>h l ds. f h l = Some ds \<Longrightarrow> \<exists>ls. chain h l ls"
    and unfolded: "(let dependencies = if truthy (name (h l)) then [l] else []
      in case group (h l) of None \<Rightarrow> Some dependencies
         | Some g \<Rightarrow> f h g \<bind> (\<lambda>ds. Some (dependencies @ ds))) = Some ds"
  show "\<exists>ls. chain h l ls"
  proof (cases "group (h l)")
    case None
    then show ?thesis by (auto intro: chain.intros)
  next
    case (Some g)
    with unfolded obtain r where "f h g = Some r"
      by (auto simp: Let_def split: bind_splits)
    then have "\<exists>ls. chain h g ls" by (rule IH)
    with Some show ?thesis by (auto intro: chain.intros)
  qed
qed

lemma addDependencies_keys:
  "set (obj_keys (addDependencies h ds dl)) = set (obj_keys dl) \<union> (\<lambda>l. layer_id (h l)) ` set ds"
  unfolding addDependencies_def by (induction ds arbitrary: dl) (auto simp: obj_keys_set)

lemma addDependencies_sorted:
  "sorted_wrt (<) (obj_keys dl) \<Longrightarrow> sorted_wrt (<) (obj_keys (addDependencies h ds dl))"
  unfolding addDependencies_def by (induction ds arbitrary: dl) (auto simp: obj_set_sorted)

lemma addDependencies_get:
  "obj_get (addDependencies h ds dl) k = Some l \<Longrightarrow>
     (l \<in> set ds \<and> layer_id (h l) = k) \<or> obj_get dl k = Some l"
  unfolding addDependencies_def
  by (induction ds arbitrary: dl) (fastforce simp: obj_get_set split: if_splits)+

lemma dependentLayers_closure:
  assumes "list_all2 (\<lambda>e ls. chain h (layer (snd e)) ls) cs lss"
  shows "\<exists>dl'. dependentLayers h cs dl = Some dl'
     \<and> set (obj_keys dl') = set (obj_keys dl) \<union> (\<lambda>l. layer_id (h l)) ` {l \<in> \<Union>(set ` set lss). named h l}
     \<and> (sorted_wrt (<) (obj_keys dl) \<longrightarrow> sorted_wrt (<) (obj_keys dl'))
     \<and> (\<forall>k l. obj_get dl' k = Some l \<longrightarrow>
           (l \<in> \<Union>(set ` set lss) \<and> named h l \<and> layer_id (h l) = k) \<or> obj_get dl k = Some l)"
  using assms
proof (induction cs lss arbitrary: dl rule: list_all2_induct)
  case Nil
  then show ?case by simp
next
  case (Cons e cs ls lss)
  obtain i lc where e: "e = (i, lc)" by (cases e)
  from Cons.hyps(1) have g: "getDependentLayers h (layer lc) = Some (filter (named h) ls)"
    by (simp add: e chain_getDependentLayers)
  let ?dl1 = "addDependencies h (filter (named h) ls) dl"
  from Cons.IH[of ?dl1] obtain dl' where
    r: "dependentLayers h cs ?dl1 = Some dl'"
    and k: "set (obj_keys dl') = set (obj_keys ?dl1) \<union> (\<lambda>l. layer_id (h l)) ` {l \<in> \<Union>(set ` set lss). named h l}"
    and s: "sorted_wrt (<) (obj_keys ?dl1) \<longrightarrow> sorted_wrt (<) (obj_keys dl')"
    and v: "\<forall>k l. obj_get dl' k = Some l \<longrightarrow>
           (l \<in> \<Union>(set ` set lss) \<and> named h l \<and> layer_id (h l) = k) \<or> obj_get ?dl1 k = Some l"
    by blast
  have "dependentLayers h (e # cs) dl = Some dl'"
    using g r by (simp add: e addDependencies_def)
  moreover have "set (obj_keys dl') = set (obj_keys dl) \<union> (\<lambda>l. layer_id (h l)) ` {l \<in> \<Union>(set ` set (ls # lss)). named h l}"
    unfolding k addDependencies_keys by auto
  moreover have "sorted_wrt (<) (obj_keys dl) \<longrightarrow> sorted_wrt (<) (obj_keys dl')"
    using s addDependencies_sorted by blast
  moreover have "\<forall>k l. obj_get dl' k = Some l \<longrightarrow>
           (l \<in> \<Union>(set ` set (ls # lss)) \<and> named h l \<and> layer_id (h l) = k) \<or> obj_get dl k = Some l"
  proof (intro allI impI)
    fix k l assume "obj_get dl' k = Some l"
    with v have "(l \<in> \<Union>(set ` set lss) \<and> named h l \<and> layer_id (h l) = k) \<or> obj_get ?dl1 k = Some l"
      by blast
    then show "(l \<in> \<Union>(set ` set (ls # lss)) \<and> named h l \<and> layer_id (h l) = k) \<or> obj_get dl k = Some l"
      using addDependencies_get[of h "filter (named h) ls" dl k l] by auto
  qed
  ultimately show ?case by blast
qed



section \<open>The dependency closure\<close>

lemma p4_chain: "chain p4_heap 4 [4, 3, 2, 1, 0]"
proof -
  have c0: "chain p4_heap 0 [0]"
    by (rule chain_root) (simp add: p4_heap_def mk_layer_def)
  have c1: "chain p4_heap 1 [1, 0]"
    by (rule chain_step[OF _ c0]) (simp add: p4_heap_def mk_layer_def)
  have c2: "chain p4_heap 2 [2, 1, 0]"
    by (rule chain_step[OF _ c1]) (simp add: p4_heap_def mk_layer_def)
  have c3: "chain p4_heap 3 [3, 2, 1, 0]"
    by (rule chain_step[OF _ c2]) (simp add: p4_heap_def mk_layer_def)
  show ?thesis
    by (rule chain_step[OF _ c3]) (simp add: p4_heap_def mk_layer_def)
qed

text \<open>
  Claim C4. Whenever the \<open>group\<close> chain of every changed layer ends, the closure computed
  from a changed layer is the list of the named layers of its chain, the changed layer
  first: a layer of the chain is in the closure iff it has a (non-empty) name, so an
  unnamed layer is left out and the named layers above it are kept. The closures of the
  changed layers are united in one object keyed by layer id, with one entry per id: its
  keys are the ids of the named layers of all chains, and each value is such a layer with
  the id it is stored under.
\<close>

theorem closure_is_named_chain:
  assumes "list_all2 (\<lambda>e ls. chain h (layer (snd e)) ls) cs lss"
  shows "list_all2 (\<lambda>e ls. getDependentLayers h (layer (snd e)) = Some (filter (named h) ls)) cs lss
     \<and> (\<exists>dl. dependentLayers h cs [] = Some dl
          \<and> distinct (obj_keys dl)
          \<and> set (obj_keys dl) = (\<lambda>l. layer_id (h l)) ` {l \<in> \<Union>(set ` set lss). named h l}
          \<and> (\<forall>k l. obj_get dl k = Some l \<longrightarrow>
                l \<in> \<Union>(set ` set lss) \<and> named h l \<and> layer_id (h l) = k))"
proof
  show "list_all2 (\<lambda>e ls. getDependentLayers h (layer (snd e)) = Some (filter (named h) ls)) cs lss"
    using assms by (rule list_all2_mono) (rule chain_getDependentLayers)
  from dependentLayers_closure[OF assms, of "[]"] obtain dl where
    "dependentLayers h cs [] = Some dl"
    "set (obj_keys dl) = (\<lambda>l. layer_id (h l)) ` {l \<in> \<Union>(set ` set lss). named h l}"
    "sorted_wrt (<) (obj_keys dl)"
    "\<forall>k l. obj_get dl k = Some l \<longrightarrow> l \<in> \<Union>(set ` set lss) \<and> named h l \<and> layer_id (h l) = k"
    by auto
  then show "\<exists>dl. dependentLayers h cs [] = Some dl
          \<and> distinct (obj_keys dl)
          \<and> set (obj_keys dl) = (\<lambda>l. layer_id (h l)) ` {l \<in> \<Union>(set ` set lss). named h l}
          \<and> (\<forall>k l. obj_get dl k = Some l \<longrightarrow>
                l \<in> \<Union>(set ` set lss) \<and> named h l \<and> layer_id (h l) = k)"
    using sorted_keys_distinct by blast
qed

theorem closure_is_named_chain_witness:
  "list_all2 (\<lambda>e ls. chain p4_heap (layer (snd e)) ls) [(14::nat, \<lparr>type = modified, layer = 4\<rparr>)] [[4, 3, 2, 1, 0]]
   \<and> getDependentLayers p4_heap 4 = Some [4, 3, 1]
   \<and> dependentLayers p4_heap [(14, \<lparr>type = modified, layer = 4\<rparr>)] [] = Some [(11, 1), (13, 3), (14, 4)]"
proof -
  have c: "list_all2 (\<lambda>e ls. chain p4_heap (layer (snd e)) ls)
             [(14::nat, \<lparr>type = modified, layer = 4\<rparr>)] [[4, 3, 2, 1, 0]]"
    using p4_chain by simp
  have n: "filter (named p4_heap) [4, 3, 2, 1, 0] = [4, 3, 1]"
    by (simp add: named_def p4_heap_def mk_layer_def)
  from closure_is_named_chain[OF c]
  have "list_all2 (\<lambda>e ls. getDependentLayers p4_heap (layer (snd e)) = Some (filter (named p4_heap) ls))
          [(14::nat, \<lparr>type = modified, layer = 4\<rparr>)] [[4, 3, 2, 1, 0]]"
    by (rule conjunct1)
  then have "getDependentLayers p4_heap 4 = Some (filter (named p4_heap) [4, 3, 2, 1, 0])"
    by (simp del: filter.simps)
  then have g: "getDependentLayers p4_heap 4 = Some [4, 3, 1]"
    by (simp only: n)
  then have "dependentLayers p4_heap [(14, \<lparr>type = modified, layer = 4\<rparr>)] [] = Some [(11, 1), (13, 3), (14, 4)]"
    by (simp add: addDependencies_def p4_heap_def mk_layer_def)
  with c g show ?thesis by blast
qed

lemma loop_heap_no_chain: "\<not> chain loop_heap l ls"
proof
  assume "chain loop_heap l ls"
  then show False
    by (induction loop_heap l ls rule: chain.induct) (auto simp: loop_heap_def mk_layer_def)
qed

text \<open>
  Claim C9 says the walk is guarded and returns on cyclic \<open>group\<close> chains too. It is plain
  recursion: on two layers that are each other's group it never returns.
\<close>

theorem walk_on_cycle_counterexample: "getDependentLayers loop_heap 0 = None"
proof (cases "getDependentLayers loop_heap 0")
  case None
  then show ?thesis .
next
  case (Some ds)
  then have "\<exists>ls. chain loop_heap 0 ls" by (rule getDependentLayers_chain)
  with loop_heap_no_chain show ?thesis by blast
qed

text \<open>
  Claim C9, amended. The walk has no visited set: it returns, with a finite closure,
  exactly when the chain of \<open>group\<close> references from the layer ends at a layer without a
  group.
\<close>

theorem walk_returns_iff_chain_ends:
  "(\<exists>ds. getDependentLayers h l = Some ds) \<longleftrightarrow> (\<exists>ls. chain h l ls)"
  using chain_getDependentLayers getDependentLayers_chain by blast

theorem walk_returns_iff_chain_ends_witness:
  "(\<exists>ds. getDependentLayers p4_heap 4 = Some ds) \<and> (\<exists>ls. chain p4_heap 4 ls)
   \<and> \<not> (\<exists>ds. getDependentLayers loop_heap 0 = Some ds) \<and> \<not> (\<exists>ls. chain loop_heap 0 ls)"
  using walk_returns_iff_chain_ends[of p4_heap 4] walk_returns_iff_chain_ends[of loop_heap 0]
    p4_chain loop_heap_no_chain by blast

section \<open>Settlement of a render job\<close>

lemma record_call_fields [simp]:
  "renderPromises (record_call e st) = renderPromises st"
  "componentManager (record_call e st) = componentManager st"
  "basePath (record_call e st) = basePath st"
  "jobs (record_call e st) = jobs st"
  "listening (record_call e st) = listening st"
  "calls (record_call e st) = calls st @ [e]"
  by (simp_all add: record_call_def)

lemma settled_fields [simp]:
  "renderPromises (settled c out st) = renderPromises st"
  "componentManager (settled c out st) = componentManager st"
  "basePath (settled c out st) = basePath st"
  "jobs (settled c out st) = jobs st"
  "listening (settled c out st) = listening st"
  by (cases out; simp)+

lemma on_finally_fields [simp]:
  "renderPromises (on_finally doc c st) = obj_delete (component_id c) (renderPromises st)"
  "componentManager (on_finally doc c st) = componentManager st"
  "basePath (on_finally doc c st) = basePath st"
  "jobs (on_finally doc c st) = jobs st"
  "listening (on_finally doc c st) = listening st"
  by (simp_all add: on_finally_def Let_def)

lemma on_finally_calls:
  "calls (on_finally doc c st) =
     calls st @ (if obj_keys (obj_delete (component_id c) (renderPromises st)) = []
                 then [emit_idle (document_id doc)] else [])"
  by (simp add: on_finally_def Let_def)

lemma runHandlers_settled:
  assumes "job_at (jobs st) j = Some jb" "promise jb = Settled out" "\<not> handled jb"
  shows "runHandlers doc j st =
           on_finally doc (job_component jb)
             (settled (job_component jb) out (st\<lparr>jobs := (jobs st)[j := jb\<lparr>handled := True\<rparr>]\<rparr>))"
  using assms by (simp add: runHandlers_def)

text \<open>
  Claim C6. When the handlers of a settled job run, whatever its outcome, no entry is left
  in the job table under the job's component id. The artifact is moved into the
  component's asset path exactly when the job was fulfilled with a non-empty temporary
  path. Nothing is recorded in the ErrorManager; a warning is logged exactly when the job
  was rejected with an error, and a job rejected without one (a cancellation) is logged
  as such, with no warning.
\<close>

theorem settlement_outcomes:
  assumes "job_at (jobs st) j = Some jb" and "promise jb = Settled out" and "\<not> handled jb"
  shows "\<exists>new. calls (runHandlers doc j st) = calls st @ new
     \<and> \<not> obj_has (renderPromises (runHandlers doc j st)) (component_id (job_component jb))
     \<and> filter is_moveFileInto new =
         (case out of Fulfilled (Some p) \<Rightarrow>
                        if p \<noteq> [] then [fileManager_moveFileInto p (assetPath (job_component jb))] else []
                    | _ \<Rightarrow> [])
     \<and> filter is_addError new = []
     \<and> filter is_warn new =
         (case out of Rejected (Some e) \<Rightarrow>
                        if e \<noteq> [] then [logger_warn (component_name (job_component jb))
                                          (component_layer_id (job_component jb)) e] else []
                    | _ \<Rightarrow> [])
     \<and> (out = Rejected None \<longrightarrow>
           logger_log (component_name (job_component jb)) (component_layer_id (job_component jb)) \<in> set new)"
proof -
  let ?c = "job_component jb"
  let ?st1 = "st\<lparr>jobs := (jobs st)[j := jb\<lparr>handled := True\<rparr>]\<rparr>"
  let ?idle = "if obj_keys (obj_delete (component_id ?c) (renderPromises st)) = []
               then [emit_idle (document_id doc)] else []"
  let ?mid = "case out of
                Fulfilled p \<Rightarrow> (if truthy p then [fileManager_moveFileInto (str p) (assetPath ?c)] else [])
              | Rejected e \<Rightarrow> (if truthy e then [logger_warn (component_name ?c) (component_layer_id ?c) (str e)]
                              else [logger_log (component_name ?c) (component_layer_id ?c)])"
  have r: "runHandlers doc j st = on_finally doc ?c (settled ?c out ?st1)"
    using assms by (rule runHandlers_settled)
  have m: "calls (settled ?c out ?st1) = calls st @ ?mid"
    by (cases out) simp_all
  have c: "calls (runHandlers doc j st) = calls st @ (?mid @ ?idle)"
    by (simp add: r on_finally_calls m)
  have t: "\<not> obj_has (renderPromises (runHandlers doc j st)) (component_id ?c)"
    by (simp add: r obj_has_def obj_get_delete)
  have f1: "filter is_moveFileInto (?mid @ ?idle) =
         (case out of Fulfilled (Some p) \<Rightarrow>
                        if p \<noteq> [] then [fileManager_moveFileInto p (assetPath ?c)] else []
                    | _ \<Rightarrow> [])"
    by (simp add: is_moveFileInto_def split: outcome.split option.split)
  have f2: "filter is_addError (?mid @ ?idle) = []"
    by (simp add: is_addError_def split: outcome.split option.split)
  have f3: "filter is_warn (?mid @ ?idle) =
         (case out of Rejected (Some e) \<Rightarrow>
                        if e \<noteq> [] then [logger_warn (component_name ?c) (component_layer_id ?c) e] else []
                    | _ \<Rightarrow> [])"
    by (simp add: is_warn_def split: outcome.split option.split)
  have f4: "out = Rejected None \<longrightarrow> logger_log (component_name ?c) (component_layer_id ?c) \<in> set (?mid @ ?idle)"
    by simp
  from c t f1 f2 f3 f4 show ?thesis by blast
qed

theorem settlement_outcomes_witness:
  "job_at (jobs settled_job) 0 = Some (hd (jobs settled_job))
   \<and> promise (hd (jobs settled_job)) = Settled (Fulfilled (Some ''/tmp/x''))
   \<and> \<not> handled (hd (jobs settled_job))
   \<and> (\<exists>new. calls (runHandlers icon_doc 0 settled_job) = calls settled_job @ new
        \<and> \<not> obj_has (renderPromises (runHandlers icon_doc 0 settled_job)) 1
        \<and> filter is_moveFileInto new = [fileManager_moveFileInto ''/tmp/x'' ''icon.png'']
        \<and> filter is_addError new = []
        \<and> filter is_warn new = [])"
proof -
  have a: "job_at (jobs settled_job) 0 = Some (hd (jobs settled_job))"
    by (simp add: settled_job_def job_at_def)
  have b: "promise (hd (jobs settled_job)) = Settled (Fulfilled (Some ''/tmp/x''))"
    by (simp add: settled_job_def)
  have c: "\<not> handled (hd (jobs settled_job))"
    by (simp add: settled_job_def)
  have d: "job_component (hd (jobs settled_job)) =
             \<lparr>component_id = 1, component_name = ''icon.png'', assetPath = ''icon.png'', component_layer_id = 1\<rparr>"
    by (simp add: settled_job_def)
  from settlement_outcomes[OF a b c, of icon_doc] a b c show ?thesis
    unfolding d by simp
qed

section \<open>Derived-component cleanup\<close>

lemma job_at_map: "job_at (map f js) j = map_option f (job_at js j)"
  by (simp add: job_at_def)

lemma cancel_fields [simp]:
  "renderPromises (cancel i st) = renderPromises st"
  "componentManager (cancel i st) = componentManager st"
  "basePath (cancel i st) = basePath st"
  "listening (cancel i st) = listening st"
  "calls (cancel i st) = calls st @ [renderManager_cancel i]"
  "jobs (cancel i st) =
     map (\<lambda>jb. if component_id (job_component jb) = i then cancel_job jb else jb) (jobs st)"
  by (simp_all add: cancel_def)

lemma cancel_job_fields [simp]:
  "job_component (cancel_job jb) = job_component jb"
  "handled (cancel_job jb) = handled jb"
  "promise (cancel_job jb) = Pending \<longleftrightarrow> False"
  by (simp_all add: cancel_job_def)

lemma table_ok_get:
  "table_ok st \<Longrightarrow> obj_get (renderPromises st) i = Some j \<Longrightarrow>
     \<exists>jb. job_at (jobs st) j = Some jb \<and> component_id (job_component jb) = i"
  by (auto simp: table_ok_def list_all_iff dest!: obj_get_mem split: option.splits)

lemma hasPendingRender_cancel:
  assumes "table_ok st"
  shows "hasPendingRender (cancel i st) k \<longleftrightarrow> hasPendingRender st k \<and> k \<noteq> i"
proof (cases "obj_get (renderPromises st) k")
  case None
  then show ?thesis by (simp add: hasPendingRender_def)
next
  case (Some j)
  with table_ok_get[OF assms] obtain jb where
    "job_at (jobs st) j = Some jb" "component_id (job_component jb) = k" by blast
  with Some show ?thesis
    by (auto simp: hasPendingRender_def job_at_map)
qed

lemma table_ok_cancel: "table_ok st \<Longrightarrow> table_ok (cancel i st)"
  by (auto simp: table_ok_def list_all_iff job_at_map split: option.splits)

lemma cleanupDerived_fields [simp]:
  "renderPromises (cleanupDerived d st) = renderPromises st"
  "componentManager (cleanupDerived d st) = componentManager st"
  "basePath (cleanupDerived d st) = basePath st"
  "listening (cleanupDerived d st) = listening st"
  by (simp_all add: cleanupDerived_def)

lemma cleanupDerived_calls:
  "calls (cleanupDerived d st) =
     calls st @ (if hasPendingRender st (component_id d) then [renderManager_cancel (component_id d)] else [])
       @ [fileManager_removeFileWithin (assetPath d)]"
  by (simp add: cleanupDerived_def)

lemma table_ok_record_call [simp]: "table_ok (record_call e st) = table_ok st"
  by (simp add: table_ok_def)

lemma hasPendingRender_record_call [simp]:
  "hasPendingRender (record_call e st) k = hasPendingRender st k"
  by (simp add: hasPendingRender_def split: option.split)

lemma table_ok_cleanupDerived: "table_ok st \<Longrightarrow> table_ok (cleanupDerived d st)"
  by (simp add: cleanupDerived_def table_ok_cancel)

lemma hasPendingRender_cleanupDerived:
  assumes "table_ok st"
  shows "hasPendingRender (cleanupDerived d st) k \<longleftrightarrow> hasPendingRender st k \<and> k \<noteq> component_id d"
  using hasPendingRender_cancel[OF assms] by (auto simp: cleanupDerived_def)

lemma fold_cleanupDerived:
  assumes "table_ok st"
  shows "table_ok (fold cleanupDerived ds st)
     \<and> (\<forall>k. hasPendingRender (fold cleanupDerived ds st) k
              \<longleftrightarrow> hasPendingRender st k \<and> k \<notin> component_id ` set ds)
     \<and> calls (fold cleanupDerived ds st) = calls st @ cleanup_calls (hasPendingRender st) ds
     \<and> renderPromises (fold cleanupDerived ds st) = renderPromises st
     \<and> componentManager (fold cleanupDerived ds st) = componentManager st"
  using assms
proof (induction ds arbitrary: st)
  case Nil
  then show ?case by simp
next
  case (Cons d ds)
  let ?st1 = "cleanupDerived d st"
  have ok: "table_ok ?st1" using Cons.prems by (rule table_ok_cleanupDerived)
  have p: "hasPendingRender ?st1 = (\<lambda>k. hasPendingRender st k \<and> k \<noteq> component_id d)"
    using hasPendingRender_cleanupDerived[OF Cons.prems] by auto
  from Cons.IH[OF ok]
  have 1: "table_ok (fold cleanupDerived ds ?st1)"
    and 2: "\<And>k. hasPendingRender (fold cleanupDerived ds ?st1) k
              \<longleftrightarrow> hasPendingRender ?st1 k \<and> k \<notin> component_id ` set ds"
    and 3: "calls (fold cleanupDerived ds ?st1) = calls ?st1 @ cleanup_calls (hasPendingRender ?st1) ds"
    and 4: "renderPromises (fold cleanupDerived ds ?st1) = renderPromises ?st1"
    and 5: "componentManager (fold cleanupDerived ds ?st1) = componentManager ?st1"
    by blast+
  have "table_ok (fold cleanupDerived (d # ds) st)" using 1 by simp
  moreover have "\<forall>k. hasPendingRender (fold cleanupDerived (d # ds) st) k
              \<longleftrightarrow> hasPendingRender st k \<and> k \<notin> component_id ` set (d # ds)"
    using 2 hasPendingRender_cleanupDerived[OF Cons.prems] by auto
  moreover have "calls (fold cleanupDerived (d # ds) st) = calls st @ cleanup_calls (hasPendingRender st) (d # ds)"
    using 3 by (simp add: p cleanupDerived_calls)
  moreover have "renderPromises (fold cleanupDerived (d # ds) st) = renderPromises st"
    using 4 by simp
  moreover have "componentManager (fold cleanupDerived (d # ds) st) = componentManager st"
    using 5 by simp
  ultimately show ?case by blast
qed

lemma cleanup_calls_none:
  "(\<forall>d\<in>set ds. \<not> P (component_id d)) \<Longrightarrow>
     cleanup_calls P ds = map (\<lambda>d. fileManager_removeFileWithin (assetPath d)) ds"
proof (induction ds arbitrary: P)
  case Nil
  then show ?case by simp
next
  case (Cons d ds)
  have "cleanup_calls (\<lambda>i. P i \<and> i \<noteq> component_id d) ds
          = map (\<lambda>d. fileManager_removeFileWithin (assetPath d)) ds"
    by (rule Cons.IH) (use Cons.prems in simp)
  with Cons.prems show ?case by simp
qed

lemma cleanup_calls_removes:
  "filter is_removeFileWithin (cleanup_calls P ds) = map (\<lambda>d. fileManager_removeFileWithin (assetPath d)) ds"
proof (induction ds arbitrary: P)
  case Nil
  then show ?case by simp
next
  case (Cons d ds)
  show ?case
    by (simp add: Cons.IH) (simp add: is_removeFileWithin_def)
qed

lemma cleanup_calls_cancels:
  "renderManager_cancel i \<in> set (cleanup_calls P ds) \<longleftrightarrow> P i \<and> i \<in> component_id ` set ds"
proof (induction ds arbitrary: P)
  case Nil
  then show ?case by simp
next
  case (Cons d ds)
  have IH: "renderManager_cancel i \<in> set (cleanup_calls (\<lambda>i. P i \<and> i \<noteq> component_id d) ds)
             \<longleftrightarrow> (P i \<and> i \<noteq> component_id d) \<and> i \<in> component_id ` set ds"
    by (rule Cons.IH)
  have "renderManager_cancel i \<in> set (cleanup_calls P (d # ds))
          \<longleftrightarrow> (P (component_id d) \<and> i = component_id d)
              \<or> renderManager_cancel i \<in> set (cleanup_calls (\<lambda>i. P i \<and> i \<noteq> component_id d) ds)"
    by auto
  also have "\<dots> \<longleftrightarrow> P i \<and> i \<in> component_id ` set (d # ds)"
    unfolding IH by auto
  finally show ?case .
qed

text \<open>\<open>rendering_icon\<close> is the state \<^verbatim>\<open>start()\<close> reaches on \<open>icon_doc\<close>.\<close>

lemma start_icon_doc: "start Catalog icon_doc (new_AssetManager Catalog) = rendering_icon"
  by code_simp


lemma cleanupDerived_not_pending:
  "\<not> hasPendingRender st (component_id d) \<Longrightarrow>
     cleanupDerived d st = record_call (fileManager_removeFileWithin (assetPath d)) st"
  by (simp add: cleanupDerived_def)

lemma fold_cleanupDerived_not_pending:
  "(\<forall>d\<in>set ds. \<not> hasPendingRender st (component_id d)) \<Longrightarrow>
     jobs (fold cleanupDerived ds st) = jobs st"
proof (induction ds arbitrary: st)
  case Nil
  then show ?case by simp
next
  case (Cons d ds)
  have e: "cleanupDerived d st = record_call (fileManager_removeFileWithin (assetPath d)) st"
    using Cons.prems by (simp add: cleanupDerived_not_pending)
  have "jobs (fold cleanupDerived ds (cleanupDerived d st)) = jobs (cleanupDerived d st)"
    by (rule Cons.IH) (use Cons.prems in \<open>simp add: e\<close>)
  then show ?case by (simp add: e)
qed

text \<open>
  Claim C8. Derived-component cleanup cancels the render of a derived component exactly
  when the job table holds an entry for it whose promise is still pending (an entry whose
  promise has settled is not cancelled), and requests the deletion of the asset path of
  every derived component, pending or not. A second call in a row for the same basic
  component repeats the deletions and nothing else: no cancellation, and the jobs and the
  job table are as the first call left them.
\<close>

theorem cleanup_derived_idempotent:
  assumes "table_ok st"
  shows "(\<exists>new. calls (cleanupDerivedComponents cm i st) = calls st @ new
            \<and> (\<forall>k. renderManager_cancel k \<in> set new \<longleftrightarrow>
                  k \<in> component_id ` set (getDerivedComponents cm (componentManager st) i)
                  \<and> (\<exists>j jb. obj_get (renderPromises st) k = Some j \<and> job_at (jobs st) j = Some jb
                              \<and> promise jb = Pending))
            \<and> filter is_removeFileWithin new =
                map (\<lambda>d. fileManager_removeFileWithin (assetPath d))
                  (getDerivedComponents cm (componentManager st) i))
     \<and> calls (cleanupDerivedComponents cm i (cleanupDerivedComponents cm i st)) =
         calls (cleanupDerivedComponents cm i st)
         @ map (\<lambda>d. fileManager_removeFileWithin (assetPath d))
             (getDerivedComponents cm (componentManager st) i)
     \<and> jobs (cleanupDerivedComponents cm i (cleanupDerivedComponents cm i st)) =
         jobs (cleanupDerivedComponents cm i st)
     \<and> renderPromises (cleanupDerivedComponents cm i (cleanupDerivedComponents cm i st)) =
         renderPromises (cleanupDerivedComponents cm i st)"
proof -
  let ?ds = "getDerivedComponents cm (componentManager st) i"
  let ?st1 = "fold cleanupDerived ?ds st"
  let ?new = "cleanup_calls (hasPendingRender st) ?ds"
  have pend: "hasPendingRender st k \<longleftrightarrow>
                (\<exists>j jb. obj_get (renderPromises st) k = Some j \<and> job_at (jobs st) j = Some jb
                         \<and> promise jb = Pending)" for k
    by (auto simp: hasPendingRender_def split: option.splits)
  from fold_cleanupDerived[OF assms, of ?ds]
  have ok1: "table_ok ?st1"
    and p1: "\<And>k. hasPendingRender ?st1 k \<longleftrightarrow> hasPendingRender st k \<and> k \<notin> component_id ` set ?ds"
    and c1: "calls ?st1 = calls st @ ?new"
    and t1: "renderPromises ?st1 = renderPromises st"
    and m1: "componentManager ?st1 = componentManager st"
    by blast+
  have s1: "cleanupDerivedComponents cm i st = ?st1"
    by (simp add: cleanupDerivedComponents_def)
  have s2: "cleanupDerivedComponents cm i ?st1 = fold cleanupDerived ?ds ?st1"
    by (simp add: cleanupDerivedComponents_def m1)
  have none: "\<forall>d\<in>set ?ds. \<not> hasPendingRender ?st1 (component_id d)"
    by (simp add: p1)
  from fold_cleanupDerived[OF ok1, of ?ds]
  have c2: "calls (fold cleanupDerived ?ds ?st1) = calls ?st1 @ cleanup_calls (hasPendingRender ?st1) ?ds"
    and t2: "renderPromises (fold cleanupDerived ?ds ?st1) = renderPromises ?st1"
    by blast+
  have A: "\<exists>new. calls ?st1 = calls st @ new
            \<and> (\<forall>k. renderManager_cancel k \<in> set new \<longleftrightarrow>
                  k \<in> component_id ` set ?ds
                  \<and> (\<exists>j jb. obj_get (renderPromises st) k = Some j \<and> job_at (jobs st) j = Some jb
                              \<and> promise jb = Pending))
            \<and> filter is_removeFileWithin new = map (\<lambda>d. fileManager_removeFileWithin (assetPath d)) ?ds"
  proof (intro exI[of _ ?new] conjI allI)
    show "calls ?st1 = calls st @ ?new" by (rule c1)
    show "renderManager_cancel k \<in> set ?new \<longleftrightarrow>
            k \<in> component_id ` set ?ds
            \<and> (\<exists>j jb. obj_get (renderPromises st) k = Some j \<and> job_at (jobs st) j = Some jb
                       \<and> promise jb = Pending)" for k
      unfolding cleanup_calls_cancels pend by blast
    show "filter is_removeFileWithin ?new = map (\<lambda>d. fileManager_removeFileWithin (assetPath d)) ?ds"
      by (rule cleanup_calls_removes)
  qed
  have B: "calls (fold cleanupDerived ?ds ?st1) =
             calls ?st1 @ map (\<lambda>d. fileManager_removeFileWithin (assetPath d)) ?ds"
    unfolding c2 using cleanup_calls_none[OF none] by simp
  have C: "jobs (fold cleanupDerived ?ds ?st1) = jobs ?st1"
    using none by (rule fold_cleanupDerived_not_pending)
  show ?thesis
    unfolding s1 s2 using A B C t2 by blast
qed

lemma rendering_icon_ok: "table_ok rendering_icon"
  by (simp add: table_ok_def rendering_icon_def job_at_def icon_component_def)

theorem cleanup_derived_idempotent_witness:
  "table_ok rendering_icon
   \<and> calls (cleanupDerivedComponents Catalog 1 rendering_icon) =
       calls rendering_icon @ [renderManager_cancel 1, fileManager_removeFileWithin ''icon.png'']
   \<and> calls (cleanupDerivedComponents Catalog 1 (cleanupDerivedComponents Catalog 1 rendering_icon)) =
       calls (cleanupDerivedComponents Catalog 1 rendering_icon) @ [fileManager_removeFileWithin ''icon.png'']"
proof -
  have d: "getDerivedComponents Catalog (componentManager rendering_icon) 1 = [icon_component]"
    by code_simp
  have c: "calls (cleanupDerivedComponents Catalog 1 rendering_icon) =
       calls rendering_icon @ [renderManager_cancel 1, fileManager_removeFileWithin ''icon.png'']"
    by code_simp
  from cleanup_derived_idempotent[OF rendering_icon_ok, of Catalog 1]
  have "calls (cleanupDerivedComponents Catalog 1 (cleanupDerivedComponents Catalog 1 rendering_icon)) =
         calls (cleanupDerivedComponents Catalog 1 rendering_icon)
         @ map (\<lambda>d. fileManager_removeFileWithin (assetPath d))
             (getDerivedComponents Catalog (componentManager rendering_icon) 1)"
    by blast
  then have "calls (cleanupDerivedComponents Catalog 1 (cleanupDerivedComponents Catalog 1 rendering_icon)) =
       calls (cleanupDerivedComponents Catalog 1 rendering_icon) @ [fileManager_removeFileWithin ''icon.png'']"
    unfolding d by (simp add: icon_component_def)
  with rendering_icon_ok c show ?thesis by blast
qed

section \<open>What an operation adds to the trace\<close>

lemma emitsI: "(\<And>s. \<exists>new. tr (f s) = tr s @ new \<and> list_all P new) \<Longrightarrow> emits tr P f"
  by (simp add: emits_def)

lemma emitsD: "emits tr P f \<Longrightarrow> \<exists>new. tr (f s) = tr s @ new \<and> list_all P new"
  by (simp add: emits_def)

lemma emits_id: "emits tr P (\<lambda>s. s)"
  by (simp add: emits_def)

lemma emits_comp:
  assumes "emits tr P f" and "emits tr P g"
  shows "emits tr P (\<lambda>s. g (f s))"
proof (rule emitsI)
  fix s
  from emitsD[OF assms(1), of s] obtain n1 where 1: "tr (f s) = tr s @ n1" "list_all P n1" by blast
  from emitsD[OF assms(2), of "f s"] obtain n2 where 2: "tr (g (f s)) = tr (f s) @ n2" "list_all P n2" by blast
  from 1 2 have "tr (g (f s)) = tr s @ (n1 @ n2) \<and> list_all P (n1 @ n2)" by simp
  then show "\<exists>new. tr (g (f s)) = tr s @ new \<and> list_all P new" by blast
qed

lemma emits_fold:
  assumes "\<And>x. x \<in> set xs \<Longrightarrow> emits tr P (g x)"
  shows "emits tr P (fold g xs)"
  using assms
proof (induction xs)
  case Nil
  then show ?case by (simp add: emits_def)
next
  case (Cons x xs)
  have "emits tr P (\<lambda>s. fold g xs (g x s))"
    by (rule emits_comp) (simp_all add: Cons)
  then show ?case by simp
qed

lemma emits_dep:
  assumes "\<And>s0. emits tr P (F s0)"
  shows "emits tr P (\<lambda>s. F s s)"
  using assms by (simp add: emits_def)

lemma emits_if:
  assumes "emits tr P f" and "emits tr P g"
  shows "emits tr P (\<lambda>s. if b s then f s else g s)"
  using assms by (simp add: emits_def)

lemma emits_record_call: "P e \<Longrightarrow> emits calls P (record_call e)"
  by (simp add: emits_def)

lemma emits_calls_eq:
  assumes "\<And>s. calls (f s) = calls s"
  shows "emits calls P f"
  using assms by (simp add: emits_def)


section \<open>Render requests\<close>

lemma requestRender_fields [simp]:
  "jobs (requestRender doc c st) = jobs st @ [\<lparr>job_component = c, promise = Pending, handled = False\<rparr>]"
  "renderPromises (requestRender doc c st) = obj_set (component_id c) (length (jobs st)) (renderPromises st)"
  "componentManager (requestRender doc c st) = componentManager st"
  "basePath (requestRender doc c st) = basePath st"
  "listening (requestRender doc c st) = listening st"
  by (simp_all add: requestRender_def render_def Let_def)

lemma requestRender_calls:
  "calls (requestRender doc c st) =
     calls st @ renderManager_render (component_id c)
       # (if renderPromises st = [] then [emit_active (document_id doc)] else [])"
  by (simp add: requestRender_def render_def Let_def obj_keys_def)

lemma emits_requestRender_calls:
  assumes "\<And>i. P (renderManager_render i)" and "\<And>d. P (emit_active d)"
  shows "emits calls P (requestRender doc c)"
  by (rule emitsI) (simp add: requestRender_calls assms)

lemma emits_requestRender_jobs: "emits jobs (\<lambda>jb. True) (requestRender doc c)"
  by (rule emitsI) simp

lemma renderDerived_fields [simp]:
  "componentManager (renderDerived cm doc i st) = componentManager st"
  "basePath (renderDerived cm doc i st) = basePath st"
  "listening (renderDerived cm doc i st) = listening st"
proof -
  have "componentManager (fold (requestRender doc) ds st) = componentManager st
      \<and> basePath (fold (requestRender doc) ds st) = basePath st
      \<and> listening (fold (requestRender doc) ds st) = listening st" for ds
    by (induction ds arbitrary: st) simp_all
  then show "componentManager (renderDerived cm doc i st) = componentManager st"
    "basePath (renderDerived cm doc i st) = basePath st"
    "listening (renderDerived cm doc i st) = listening st"
    by (simp_all add: renderDerived_def)
qed

lemma emits_renderDerived_calls:
  assumes "\<And>i. P (renderManager_render i)" and "\<And>d. P (emit_active d)"
  shows "emits calls P (renderDerived cm doc i)"
  unfolding renderDerived_def
  by (rule emits_dep, rule emits_fold, rule emits_requestRender_calls) (rule assms)+

lemma emits_renderDerived_jobs: "emits jobs (\<lambda>jb. True) (renderDerived cm doc i)"
  unfolding renderDerived_def
  by (rule emits_dep, rule emits_fold, rule emits_requestRender_jobs)

lemma addError_fields [simp]:
  "jobs (addError h l m st) = jobs st"
  "renderPromises (addError h l m st) = renderPromises st"
  "componentManager (addError h l m st) = componentManager st"
  "basePath (addError h l m st) = basePath st"
  "listening (addError h l m st) = listening st"
  "calls (addError h l m st) = calls st @ [errorManager_addError (layer_id (h l)) m]"
  by (simp_all add: addError_def)

section \<open>The update pass\<close>

lemma emits_addCurrent_calls:
  assumes "\<And>i. P (renderManager_render i)" and "\<And>d. P (emit_active d)"
    and "\<And>i m. P (errorManager_addError i m)"
  shows "emits calls P (addCurrent cm doc l c)"
proof (rule emitsI)
  fix st :: "'a assetManager"
  show "\<exists>new. calls (addCurrent cm doc l c st) = calls st @ new \<and> list_all P new"
  proof (cases "addComponent cm (componentManager st) (objects doc) l c")
    case (Inl m)
    then show ?thesis by (simp add: addCurrent_def assms)
  next
    case (Inr r)
    obtain i catalog where r: "r = (i, catalog)" by (cases r)
    from emitsD[OF emits_renderDerived_calls[of P cm doc i], of "st\<lparr>componentManager := catalog\<rparr>"] assms
    show ?thesis by (simp add: addCurrent_def Inr r)
  qed
qed

lemma emits_addCurrent_jobs: "emits jobs (\<lambda>jb. True) (addCurrent cm doc l c)"
proof (rule emitsI)
  fix st :: "'a assetManager"
  show "\<exists>new. jobs (addCurrent cm doc l c st) = jobs st @ new \<and> list_all (\<lambda>jb. True) new"
  proof (cases "addComponent cm (componentManager st) (objects doc) l c")
    case (Inl m)
    then show ?thesis by (simp add: addCurrent_def)
  next
    case (Inr r)
    obtain i catalog where r: "r = (i, catalog)" by (cases r)
    from emitsD[OF emits_renderDerived_jobs[of cm doc i], of "st\<lparr>componentManager := catalog\<rparr>"]
    show ?thesis by (simp add: addCurrent_def Inr r)
  qed
qed

text \<open>
  Claim C10. In the update pass the specifications of a layer are added one by one. When
  \<^verbatim>\<open>addComponent\<close> throws for one of them, that step records one error against the
  layer and changes nothing else: the catalog, the jobs and the job table are as the
  specifications added before it left them. The specifications after it are then
  processed from that state, and the rest of the pass only adds jobs and calls, none of
  them a cancellation or a deletion: the renders requested earlier stay requested.
\<close>

theorem update_pass_not_atomic:
  assumes "addComponent cm (componentManager (fold (addCurrent cm doc l) xs st)) (objects doc) l b = Inl message"
  shows "addCurrent cm doc l b (fold (addCurrent cm doc l) xs st) =
           (fold (addCurrent cm doc l) xs st)
             \<lparr>calls := calls (fold (addCurrent cm doc l) xs st)
                        @ [errorManager_addError (layer_id (objects doc l)) message]\<rparr>
     \<and> fold (addCurrent cm doc l) (xs @ b # ys) st =
         fold (addCurrent cm doc l) ys (addCurrent cm doc l b (fold (addCurrent cm doc l) xs st))
     \<and> (\<exists>js new. jobs (fold (addCurrent cm doc l) (xs @ b # ys) st) =
                    jobs (fold (addCurrent cm doc l) xs st) @ js
               \<and> calls (fold (addCurrent cm doc l) (xs @ b # ys) st) =
                    calls (fold (addCurrent cm doc l) xs st)
                    @ errorManager_addError (layer_id (objects doc l)) message # new
               \<and> list_all (\<lambda>e. \<not> is_cancel e \<and> \<not> is_removeFileWithin e) new)"
proof -
  let ?st1 = "fold (addCurrent cm doc l) xs st"
  let ?st2 = "addCurrent cm doc l b ?st1"
  have 1: "?st2 = ?st1\<lparr>calls := calls ?st1 @ [errorManager_addError (layer_id (objects doc l)) message]\<rparr>"
    using assms by (simp add: addCurrent_def addError_def record_call_def)
  have 2: "fold (addCurrent cm doc l) (xs @ b # ys) st = fold (addCurrent cm doc l) ys ?st2"
    by simp
  have "emits calls (\<lambda>e. \<not> is_cancel e \<and> \<not> is_removeFileWithin e) (fold (addCurrent cm doc l) ys)"
    by (rule emits_fold, rule emits_addCurrent_calls) (simp_all add: is_cancel_def is_removeFileWithin_def)
  from emitsD[OF this, of ?st2] obtain new where
    c: "calls (fold (addCurrent cm doc l) ys ?st2) = calls ?st2 @ new"
      "list_all (\<lambda>e. \<not> is_cancel e \<and> \<not> is_removeFileWithin e) new"
    by blast
  have "emits jobs (\<lambda>jb. True) (fold (addCurrent cm doc l) ys)"
    by (rule emits_fold, rule emits_addCurrent_jobs)
  from emitsD[OF this, of ?st2] obtain js where
    j: "jobs (fold (addCurrent cm doc l) ys ?st2) = jobs ?st2 @ js"
    by blast
  have j2: "jobs ?st2 = jobs ?st1" by (subst 1) simp
  have c2: "calls ?st2 = calls ?st1 @ [errorManager_addError (layer_id (objects doc l)) message]"
    by (subst 1) simp
  have 3: "\<exists>js new. jobs (fold (addCurrent cm doc l) (xs @ b # ys) st) = jobs ?st1 @ js
               \<and> calls (fold (addCurrent cm doc l) (xs @ b # ys) st) =
                    calls ?st1 @ errorManager_addError (layer_id (objects doc l)) message # new
               \<and> list_all (\<lambda>e. \<not> is_cancel e \<and> \<not> is_removeFileWithin e) new"
    unfolding 2 using c j j2 c2 by auto
  from 1 2 3 show ?thesis by blast
qed

theorem update_pass_not_atomic_witness:
  "addComponent Catalog (componentManager (fold (addCurrent Catalog icon_doc 1) [a_spec] (new_AssetManager Catalog)))
     (objects icon_doc) 1 a_spec = Inl ''duplicate file name: a.png''
   \<and> calls (fold (addCurrent Catalog icon_doc 1) ([a_spec] @ a_spec # [b_spec]) (new_AssetManager Catalog)) =
       [renderManager_render 1, emit_active 7, errorManager_addError 1 ''duplicate file name: a.png'',
        renderManager_render 2]
   \<and> map fst (entries (componentManager
         (fold (addCurrent Catalog icon_doc 1) ([a_spec] @ a_spec # [b_spec]) (new_AssetManager Catalog)))) = [1, 2]"
proof -
  have f: "addComponent Catalog (componentManager (fold (addCurrent Catalog icon_doc 1) [a_spec] (new_AssetManager Catalog)))
     (objects icon_doc) 1 a_spec = Inl ''duplicate file name: a.png''"
    by code_simp
  have s1: "fold (addCurrent Catalog icon_doc 1) [a_spec] (new_AssetManager Catalog)
            = \<lparr>renderPromises = [(1, 0)],
               componentManager = \<lparr>next_id = 2, entries = [(1, 1, a_spec)]\<rparr>,
               basePath = None,
               jobs = [\<lparr>job_component = \<lparr>component_id = 1, component_name = ''a.png'',
                           assetPath = ''a.png'', component_layer_id = 1\<rparr>,
                        promise = Pending, handled = False\<rparr>],
               listening = False,
               calls = [renderManager_render 1, emit_active 7]\<rparr>"
    by code_simp
  from update_pass_not_atomic[OF f, of "[b_spec]"]
  have "fold (addCurrent Catalog icon_doc 1) ([a_spec] @ a_spec # [b_spec]) (new_AssetManager Catalog) =
         fold (addCurrent Catalog icon_doc 1) [b_spec]
           ((fold (addCurrent Catalog icon_doc 1) [a_spec] (new_AssetManager Catalog))
             \<lparr>calls := calls (fold (addCurrent Catalog icon_doc 1) [a_spec] (new_AssetManager Catalog))
                        @ [errorManager_addError (layer_id (objects icon_doc 1)) ''duplicate file name: a.png'']\<rparr>)"
    by simp
  also have "\<dots> = \<lparr>renderPromises = [(1, 0), (2, 1)],
               componentManager = \<lparr>next_id = 3, entries = [(1, 1, a_spec), (2, 1, b_spec)]\<rparr>,
               basePath = None,
               jobs = [\<lparr>job_component = \<lparr>component_id = 1, component_name = ''a.png'',
                           assetPath = ''a.png'', component_layer_id = 1\<rparr>,
                        promise = Pending, handled = False\<rparr>,
                       \<lparr>job_component = \<lparr>component_id = 2, component_name = ''b.png'',
                           assetPath = ''b.png'', component_layer_id = 1\<rparr>,
                        promise = Pending, handled = False\<rparr>],
               listening = False,
               calls = [renderManager_render 1, emit_active 7,
                        errorManager_addError 1 ''duplicate file name: a.png'', renderManager_render 2]\<rparr>"
    unfolding s1 by code_simp
  finally show ?thesis using f by simp
qed

section \<open>Resolution changes\<close>

text \<open>
  Claim C1 says that a change with a resolution is handled by a full reset and nothing
  more. Line 303 resets and goes on: a change that also carries layers has them
  processed after the reset. Here the render that the reset has just requested for
  \<^verbatim>\<open>icon.png\<close> is cancelled, its asset path deleted, and the component added and
  rendered once more.
\<close>

theorem resolution_change_goes_on_to_layers:
  "map_option calls (handleChange Catalog icon_doc resolution_and_layer rendering_icon) =
     Some (calls (reset Catalog icon_doc (record_call logger_debug rendering_icon))
           @ [errorManager_removeErrors 1, renderManager_cancel 1,
              fileManager_removeFileWithin ''icon.png'', renderManager_render 2,
              errorManager_reportErrors])"
  by code_simp

section \<open>After stop\<close>

lemma stop_fields [simp]:
  "listening (stop doc st) = False"
  "renderPromises (stop doc st) = renderPromises st"
  "componentManager (stop doc st) = componentManager st"
  "basePath (stop doc st) = basePath st"
  "jobs (stop doc st) = map cancel_job (jobs st)"
  "calls (stop doc st) =
     calls st @ [document_removeListener_change, renderManager_cancelAll (document_id doc),
                 fileManager_cancelAll]"
  by (simp_all add: stop_def cancelAll_def)

lemma resolveJob_fields [simp]:
  "listening (resolveJob j out st) = listening st"
  "renderPromises (resolveJob j out st) = renderPromises st"
  "componentManager (resolveJob j out st) = componentManager st"
  "basePath (resolveJob j out st) = basePath st"
  "calls (resolveJob j out st) = calls st"
  by (simp_all add: resolveJob_def split: option.split)

lemma settled_calls:
  "calls (settled c out st) =
     calls st @ (case out of
                   Fulfilled p \<Rightarrow> if truthy p then [fileManager_moveFileInto (str p) (assetPath c)] else []
                 | Rejected e \<Rightarrow> if truthy e then [logger_warn (component_name c) (component_layer_id c) (str e)]
                                 else [logger_log (component_name c) (component_layer_id c)])"
  by (cases out) simp_all

lemma runHandlers_listening [simp]: "listening (runHandlers doc j st) = listening st"
  by (simp add: runHandlers_def split: option.split promise_state.split)







section \<open>Active and idle\<close>

lemma in_sync_empty: "in_sync st \<Longrightarrow> renderPromises st = [] \<longleftrightarrow> in_flight st = []"
proof -
  assume "in_sync st"
  then have "set (obj_keys (renderPromises st)) = set (in_flight st)" by (simp add: in_sync_def)
  then have "obj_keys (renderPromises st) = [] \<longleftrightarrow> in_flight st = []"
    by (metis set_empty)
  then show ?thesis by (simp add: obj_keys_def)
qed

lemma request_step:
  assumes "in_sync st" and "component_id c \<notin> set (in_flight st)"
  shows "in_sync (requestRender doc c st)"
    and "in_flight (requestRender doc c st) = in_flight st @ [component_id c]"
    and "calls (requestRender doc c st) =
           calls st @ renderManager_render (component_id c)
             # (if length (in_flight st) = 0 then [emit_active (document_id doc)] else [])"
proof -
  show f: "in_flight (requestRender doc c st) = in_flight st @ [component_id c]"
    by (simp add: in_flight_def)
  from assms show "in_sync (requestRender doc c st)"
    by (simp add: in_sync_def f obj_set_sorted obj_keys_set)
  show "calls (requestRender doc c st) =
           calls st @ renderManager_render (component_id c)
             # (if length (in_flight st) = 0 then [emit_active (document_id doc)] else [])"
    using in_sync_empty[OF assms(1)] by (simp add: requestRender_calls)
qed

lemma job_at_split:
  assumes "job_at js j = Some jb"
  shows "js = take j js @ jb # drop (Suc j) js" and "j < length js"
  using assms by (auto simp: job_at_def id_take_nth_drop split: if_splits)

lemma list_update_split:
  assumes "job_at js j = Some jb"
  shows "js[j := x] = take j js @ x # drop (Suc j) js"
  using assms by (auto simp: job_at_def upd_conv_take_nth_drop split: if_splits)

lemma resolveJob_job_at:
  assumes "job_at (jobs st) j = Some jb"
  shows "\<exists>out'. job_at (jobs (resolveJob j out st)) j = Some (jb\<lparr>promise := Settled out'\<rparr>)
            \<and> jobs (resolveJob j out st) = (jobs st)[j := jb\<lparr>promise := Settled out'\<rparr>]"
proof (cases "promise jb")
  case Pending
  with assms show ?thesis
    by (auto simp: resolveJob_def job_at_def split: if_splits)
next
  case (Settled o1)
  then have eq: "jb\<lparr>promise := Settled o1\<rparr> = jb" by simp
  have up: "(jobs st)[j := jb] = jobs st"
    using assms by (auto simp: job_at_def split: if_splits)
  have r: "resolveJob j out st = st"
    using assms Settled by (simp add: resolveJob_def)
  show ?thesis
  proof (intro exI[of _ o1] conjI)
    show "job_at (jobs (resolveJob j out st)) j = Some (jb\<lparr>promise := Settled o1\<rparr>)"
      unfolding eq r by (rule assms)
    show "jobs (resolveJob j out st) = (jobs st)[j := jb\<lparr>promise := Settled o1\<rparr>]"
      unfolding eq r up ..
  qed
qed

lemma settle_step:
  assumes "in_sync st" and "job_at (jobs st) j = Some jb" and "\<not> handled jb"
  shows "in_sync (runHandlers doc j (resolveJob j out st))"
    and "length (in_flight (runHandlers doc j (resolveJob j out st))) = length (in_flight st) - 1"
    and "\<exists>new. calls (runHandlers doc j (resolveJob j out st)) = calls st @ new
           \<and> filter is_signal new = (if length (in_flight st) = 1 then [emit_idle (document_id doc)] else [])"
proof -
  let ?st1 = "resolveJob j out st"
  let ?i = "component_id (job_component jb)"
  let ?f = "\<lambda>js. map (\<lambda>jb. component_id (job_component jb)) (filter (\<lambda>jb. \<not> handled jb) js)"
  let ?xs = "take j (jobs st)" and ?ys = "drop (Suc j) (jobs st)"
  from resolveJob_job_at[OF assms(2), of out] obtain out' where
    j1: "job_at (jobs ?st1) j = Some (jb\<lparr>promise := Settled out'\<rparr>)"
    and js1: "jobs ?st1 = (jobs st)[j := jb\<lparr>promise := Settled out'\<rparr>]"
    by blast
  let ?jb1 = "jb\<lparr>promise := Settled out'\<rparr>"
  let ?st2 = "?st1\<lparr>jobs := (jobs ?st1)[j := ?jb1\<lparr>handled := True\<rparr>]\<rparr>"
  have r: "runHandlers doc j ?st1 = on_finally doc (job_component jb) (settled (job_component jb) out' ?st2)"
    using runHandlers_settled[OF j1, of out' doc] assms(3) by simp
  have "jobs ?st2 = (jobs st)[j := ?jb1\<lparr>handled := True\<rparr>]"
    by (simp add: js1)
  then have js2: "jobs ?st2 = ?xs @ ?jb1\<lparr>handled := True\<rparr> # ?ys"
    by (simp only: list_update_split[OF assms(2)])
  have before: "in_flight st = ?f ?xs @ ?i # ?f ?ys"
  proof -
    have "in_flight st = ?f (?xs @ jb # ?ys)"
      unfolding in_flight_def using job_at_split(1)[OF assms(2)] by simp
    then show ?thesis using assms(3) by simp
  qed
  have after: "in_flight (runHandlers doc j ?st1) = ?f ?xs @ ?f ?ys"
    by (simp add: r in_flight_def js2)
  from assms(1) have d: "distinct (?f ?xs @ ?i # ?f ?ys)"
    and k: "set (obj_keys (renderPromises st)) = set (?f ?xs @ ?i # ?f ?ys)"
    and s: "sorted_wrt (<) (obj_keys (renderPromises st))"
    by (simp_all add: in_sync_def before)
  have t: "renderPromises (runHandlers doc j ?st1) = obj_delete ?i (renderPromises st)"
    by (simp add: r)
  have k2: "set (obj_keys (obj_delete ?i (renderPromises st))) = set (?f ?xs @ ?f ?ys)"
    unfolding obj_keys_delete k using d by auto
  show "in_sync (runHandlers doc j ?st1)"
    unfolding in_sync_def after t using d k2 s by (simp add: obj_delete_sorted)
  show "length (in_flight (runHandlers doc j ?st1)) = length (in_flight st) - 1"
    by (simp add: after before)
  have e: "obj_keys (obj_delete ?i (renderPromises st)) = [] \<longleftrightarrow> length (in_flight st) = 1"
  proof -
    have "obj_keys (obj_delete ?i (renderPromises st)) = [] \<longleftrightarrow> ?f ?xs @ ?f ?ys = []"
      using k2 by (metis set_empty)
    then show ?thesis by (simp add: before)
  qed
  let ?mid = "case out' of
                Fulfilled p \<Rightarrow> (if truthy p then [fileManager_moveFileInto (str p) (assetPath (job_component jb))] else [])
              | Rejected e \<Rightarrow> (if truthy e then [logger_warn (component_name (job_component jb))
                                                  (component_layer_id (job_component jb)) (str e)]
                              else [logger_log (component_name (job_component jb)) (component_layer_id (job_component jb))])"
  let ?idle = "if length (in_flight st) = 1 then [emit_idle (document_id doc)] else []"
  have c: "calls (runHandlers doc j ?st1) = calls st @ (?mid @ ?idle)"
    using e by (simp add: r on_finally_calls settled_calls)
  have "filter is_signal (?mid @ ?idle) = ?idle"
    by (simp add: is_signal_def split: outcome.split)
  with c show "\<exists>new. calls (runHandlers doc j ?st1) = calls st @ new
           \<and> filter is_signal new = (if length (in_flight st) = 1 then [emit_idle (document_id doc)] else [])"
    by blast
qed


lemma in_sync_no_jobs: "renderPromises st = [] \<Longrightarrow> in_flight st = [] \<Longrightarrow> in_sync st"
  by (simp add: in_sync_def)

text \<open>
  Claim C2 speaks of every sequence of requests and settlements. When a component id is
  requested again while its job is in flight, the first job to settle deletes the entry
  of the second and the idle signal is emitted with a job still in flight; it is emitted
  once more when the second job settles. And when \<^verbatim>\<open>_init\<close> replaces the job table
  (line 143) while a job is in flight, the next request finds the table empty and emits
  the active signal again, though every component id in flight is distinct: on \<open>two_doc\<close>,
  after the first job has settled and a resolution change has reset the AssetManager on
  the one layer of \<open>icon_doc\<close>.
\<close>

theorem idle_with_job_in_flight_counterexample:
  "calls (fold (handle_event icon_doc)
            [Requested icon_component, Requested icon_component, Settles 0 (Fulfilled None)] no_jobs) =
     [renderManager_render 1, emit_active 7, renderManager_render 1, emit_idle 7]
   \<and> in_flight (fold (handle_event icon_doc)
            [Requested icon_component, Requested icon_component, Settles 0 (Fulfilled None)] no_jobs) = [1]
   \<and> calls (fold (handle_event icon_doc)
            [Requested icon_component, Requested icon_component, Settles 0 (Fulfilled None),
             Settles 1 (Fulfilled None)] no_jobs) =
     [renderManager_render 1, emit_active 7, renderManager_render 1, emit_idle 7, emit_idle 7]
   \<and> map_option observed
         (run Catalog [Resolve 0 (Fulfilled None), Handlers 0]
            (two_doc, start Catalog two_doc (new_AssetManager Catalog))) =
       Some ([emit_active 7], [(2, 1)], [2])
   \<and> map_option observed
         (run Catalog [Resolve 0 (Fulfilled None), Handlers 0, Change icon_doc resolution_only]
            (two_doc, start Catalog two_doc (new_AssetManager Catalog))) =
       Some ([emit_active 7, emit_active 7], [(1, 2)], [2, 1])"
  by code_simp

text \<open>
  Claim C2, amended. Take a sequence of requests and settlements that starts in a state
  where the job table and the jobs in flight agree (the keys of the table are the
  component ids of the jobs in flight, each once; so it is when the table is empty and no
  job is in flight), and in which every request is for a component id with no job in
  flight and every settlement is of a job in flight. The signals emitted are the
  edge-triggered ones, active by exactly the requests that find no job in flight and idle
  by exactly the settlements that leave none, and the table and the jobs in flight agree
  again at the end.
\<close>

theorem signals_edge_triggered:
  assumes "in_sync st" and "well_sequenced doc st evs"
  shows "\<exists>new. calls (fold (handle_event doc) evs st) = calls st @ new
           \<and> filter is_signal new = edge_triggered doc (length (in_flight st)) evs
           \<and> in_sync (fold (handle_event doc) evs st)"
  using assms
proof (induction evs arbitrary: st)
  case Nil
  then show ?case by simp
next
  case (Cons ev evs)
  show ?case
  proof (cases ev)
    case (Requested c)
    let ?st1 = "requestRender doc c st"
    from Cons.prems Requested have fresh: "component_id c \<notin> set (in_flight st)"
      and rest: "well_sequenced doc ?st1 evs"
      by simp_all
    note step = request_step[OF Cons.prems(1) fresh, of doc]
    from Cons.IH[OF step(1) rest] obtain new where
      n: "calls (fold (handle_event doc) evs ?st1) = calls ?st1 @ new"
         "filter is_signal new = edge_triggered doc (length (in_flight ?st1)) evs"
         "in_sync (fold (handle_event doc) evs ?st1)"
      by blast
    let ?first = "renderManager_render (component_id c)
                   # (if length (in_flight st) = 0 then [emit_active (document_id doc)] else [])"
    have "calls (fold (handle_event doc) (ev # evs) st) = calls st @ (?first @ new)"
      using n(1) step(3) by (simp add: Requested)
    moreover have "filter is_signal (?first @ new) = edge_triggered doc (length (in_flight st)) (ev # evs)"
      using n(2) step(2) by (simp add: Requested is_signal_def)
    moreover have "in_sync (fold (handle_event doc) (ev # evs) st)"
      using n(3) by (simp add: Requested)
    ultimately show ?thesis by blast
  next
    case (Settles j out)
    let ?st1 = "runHandlers doc j (resolveJob j out st)"
    from Cons.prems Settles obtain jb where jb: "job_at (jobs st) j = Some jb" "\<not> handled jb"
      and rest: "well_sequenced doc ?st1 evs"
      by (auto split: option.splits)
    note step = settle_step[OF Cons.prems(1) jb, of doc out]
    from step(3) obtain first where
      f: "calls ?st1 = calls st @ first"
         "filter is_signal first = (if length (in_flight st) = 1 then [emit_idle (document_id doc)] else [])"
      by blast
    from Cons.IH[OF step(1) rest] obtain new where
      n: "calls (fold (handle_event doc) evs ?st1) = calls ?st1 @ new"
         "filter is_signal new = edge_triggered doc (length (in_flight ?st1)) evs"
         "in_sync (fold (handle_event doc) evs ?st1)"
      by blast
    have "calls (fold (handle_event doc) (ev # evs) st) = calls st @ (first @ new)"
      using n(1) f(1) by (simp add: Settles)
    moreover have "filter is_signal (first @ new) = edge_triggered doc (length (in_flight st)) (ev # evs)"
      using n(2) f(2) step(2) by (simp add: Settles)
    moreover have "in_sync (fold (handle_event doc) (ev # evs) st)"
      using n(3) by (simp add: Settles)
    ultimately show ?thesis by blast
  qed
qed

theorem signals_edge_triggered_witness:
  "in_sync no_jobs
   \<and> well_sequenced icon_doc no_jobs
        [Requested icon_component, Requested other_component, Settles 0 (Fulfilled (Some ''/tmp/x'')),
         Settles 1 (Rejected None)]
   \<and> (\<exists>new. calls (fold (handle_event icon_doc)
                [Requested icon_component, Requested other_component, Settles 0 (Fulfilled (Some ''/tmp/x'')),
                 Settles 1 (Rejected None)] no_jobs) = calls no_jobs @ new
         \<and> filter is_signal new = [emit_active 7, emit_idle 7])
   \<and> in_sync rendering_icon
   \<and> well_sequenced icon_doc rendering_icon [Settles 0 (Fulfilled (Some ''/tmp/x'')), Requested icon_component]
   \<and> (\<exists>new. calls (fold (handle_event icon_doc)
                [Settles 0 (Fulfilled (Some ''/tmp/x'')), Requested icon_component] rendering_icon) =
              calls rendering_icon @ new
         \<and> filter is_signal new = [emit_idle 7, emit_active 7])"
proof -
  have a: "in_sync no_jobs"
    by (rule in_sync_no_jobs) (simp_all add: no_jobs_def in_flight_def)
  have b: "well_sequenced icon_doc no_jobs
        [Requested icon_component, Requested other_component, Settles 0 (Fulfilled (Some ''/tmp/x'')),
         Settles 1 (Rejected None)]"
    by code_simp
  have c: "edge_triggered icon_doc (length (in_flight no_jobs))
        [Requested icon_component, Requested other_component, Settles 0 (Fulfilled (Some ''/tmp/x'')),
         Settles 1 (Rejected None)] = [emit_active 7, emit_idle 7]"
    by code_simp
  have a': "in_sync rendering_icon"
    by (simp add: in_sync_def rendering_icon_def in_flight_def icon_component_def)
  have b': "well_sequenced icon_doc rendering_icon [Settles 0 (Fulfilled (Some ''/tmp/x'')), Requested icon_component]"
    by code_simp
  have c': "edge_triggered icon_doc (length (in_flight rendering_icon))
        [Settles 0 (Fulfilled (Some ''/tmp/x'')), Requested icon_component] = [emit_idle 7, emit_active 7]"
    by code_simp
  from signals_edge_triggered[OF a b]
  have 1: "\<exists>new. calls (fold (handle_event icon_doc)
                [Requested icon_component, Requested other_component, Settles 0 (Fulfilled (Some ''/tmp/x'')),
                 Settles 1 (Rejected None)] no_jobs) = calls no_jobs @ new
         \<and> filter is_signal new = [emit_active 7, emit_idle 7]"
    unfolding c by blast
  from signals_edge_triggered[OF a' b']
  have 2: "\<exists>new. calls (fold (handle_event icon_doc)
                [Settles 0 (Fulfilled (Some ''/tmp/x'')), Requested icon_component] rendering_icon) =
              calls rendering_icon @ new
         \<and> filter is_signal new = [emit_idle 7, emit_active 7]"
    unfolding c' by blast
  from a b 1 a' b' 2 show ?thesis by blast
qed

section \<open>The job table in every run\<close>

lemma fold_invariant:
  assumes "\<And>x s. x \<in> set xs \<Longrightarrow> Q s \<Longrightarrow> Q (g x s)" and "Q s"
  shows "Q (fold g xs s)"
  using assms by (induction xs arbitrary: s) simp_all

lemma table_inv_cong:
  "renderPromises s' = renderPromises s \<Longrightarrow> jobs s' = jobs s \<Longrightarrow> table_inv s' = table_inv s"
  by (simp add: table_inv_def table_ok_def)

lemma table_inv_record_call [simp]: "table_inv (record_call e st) = table_inv st"
  by (rule table_inv_cong) simp_all

lemma table_inv_componentManager [simp]: "table_inv (st\<lparr>componentManager := c\<rparr>) = table_inv st"
  by (rule table_inv_cong) simp_all

lemma table_inv_addError [simp]: "table_inv (addError h l m st) = table_inv st"
  by (rule table_inv_cong) simp_all

lemma table_inv_updateBasePath [simp]: "table_inv (updateBasePath doc st) = table_inv st"
  by (rule table_inv_cong) (simp_all add: updateBasePath_def)

lemma table_inv_cancel: "table_inv st \<Longrightarrow> table_inv (cancel i st)"
  by (simp add: table_inv_def table_ok_cancel)

lemma cancelAll_fields [simp]:
  "renderPromises (cancelAll doc st) = renderPromises st"
  "componentManager (cancelAll doc st) = componentManager st"
  "basePath (cancelAll doc st) = basePath st"
  "listening (cancelAll doc st) = listening st"
  "calls (cancelAll doc st) = calls st @ [renderManager_cancelAll (document_id doc)]"
  "jobs (cancelAll doc st) = map cancel_job (jobs st)"
  by (simp_all add: cancelAll_def)

lemma table_ok_map:
  assumes "table_ok st" and "renderPromises s' = renderPromises st"
    and "jobs s' = map f (jobs st)" and "\<And>jb. job_component (f jb) = job_component jb"
  shows "table_ok s'"
  using assms by (auto simp: table_ok_def list_all_iff job_at_map split: option.splits)

lemma table_inv_cancelAll: "table_inv st \<Longrightarrow> table_inv (cancelAll doc st)"
  unfolding table_inv_def
  by (auto intro: table_ok_map[where f = cancel_job])

lemma table_inv_stop: "table_inv st \<Longrightarrow> table_inv (stop doc st)"
  unfolding table_inv_def
  by (auto intro: table_ok_map[where f = cancel_job])

lemma table_inv_cleanupDerived: "table_inv st \<Longrightarrow> table_inv (cleanupDerived d st)"
  by (simp add: cleanupDerived_def table_inv_cancel)

lemma table_inv_cleanupDerivedComponents:
  "table_inv st \<Longrightarrow> table_inv (cleanupDerivedComponents cm i st)"
  unfolding cleanupDerivedComponents_def
  by (rule fold_invariant[where Q = table_inv]) (simp_all add: table_inv_cleanupDerived)

lemma table_inv_cleanup_layer: "table_inv st \<Longrightarrow> table_inv (cleanup_layer cm h l st)"
  unfolding cleanup_layer_def
  by (simp add: fold_invariant[where Q = table_inv] table_inv_cleanupDerivedComponents)

lemma table_inv_cleanup: "table_inv st \<Longrightarrow> table_inv (cleanup cm doc st)"
  unfolding cleanup_def
  by (simp add: fold_invariant[where Q = table_inv] table_inv_cleanup_layer)

lemma job_at_append: "job_at (js @ [x]) j = (if j = length js then Some x else job_at js j)"
  by (auto simp: job_at_def nth_append)

lemma obj_set_subset: "set (obj_set k v ob) \<subseteq> insert (k, v) (set ob)"
  by (induction k v ob rule: obj_set.induct) auto

lemma obj_delete_subset: "set (obj_delete k ob) \<subseteq> set ob"
  by (induction k ob rule: obj_delete.induct) auto

lemma job_at_append_Some: "job_at js j = Some jb \<Longrightarrow> job_at (js @ [x]) j = Some jb"
  by (auto simp: job_at_def nth_append split: if_splits)

lemma table_ok_entry:
  "table_ok st \<longleftrightarrow>
     (\<forall>i j. (i, j) \<in> set (renderPromises st) \<longrightarrow>
        (\<exists>jb. job_at (jobs st) j = Some jb \<and> component_id (job_component jb) = i))"
  unfolding table_ok_def list_all_iff by (fastforce split: option.splits)

lemma table_ok_requestRender:
  assumes "table_ok st"
  shows "table_ok (requestRender doc c st)"
  unfolding table_ok_entry
proof (intro allI impI)
  fix i j
  let ?x = "\<lparr>job_component = c, promise = Pending, handled = False\<rparr>"
  assume "(i, j) \<in> set (renderPromises (requestRender doc c st))"
  with obj_set_subset[of "component_id c" "length (jobs st)" "renderPromises st"]
  have "(i, j) = (component_id c, length (jobs st)) \<or> (i, j) \<in> set (renderPromises st)"
    by auto
  then show "\<exists>jb. job_at (jobs (requestRender doc c st)) j = Some jb \<and> component_id (job_component jb) = i"
  proof
    assume "(i, j) = (component_id c, length (jobs st))"
    then show ?thesis by (simp add: job_at_append)
  next
    assume "(i, j) \<in> set (renderPromises st)"
    with assms obtain jb where "job_at (jobs st) j = Some jb" "component_id (job_component jb) = i"
      unfolding table_ok_entry by blast
    then show ?thesis by (simp add: job_at_append_Some)
  qed
qed

lemma table_inv_requestRender: "table_inv st \<Longrightarrow> table_inv (requestRender doc c st)"
  by (simp add: table_inv_def table_ok_requestRender obj_set_sorted)

lemma table_inv_renderDerived: "table_inv st \<Longrightarrow> table_inv (renderDerived cm doc i st)"
  unfolding renderDerived_def
  by (rule fold_invariant[where Q = table_inv]) (simp_all add: table_inv_requestRender)

lemma table_inv_renderLayer: "table_inv st \<Longrightarrow> table_inv (renderLayer cm doc i st)"
  unfolding renderLayer_def
  by (rule fold_invariant[where Q = table_inv]) (simp_all add: table_inv_renderDerived)

lemma table_inv_fold_addError: "table_inv (fold (addError h l) es st) = table_inv st"
  by (induction es arbitrary: st) simp_all

lemma table_inv_init_result:
  assumes "table_inv (fst acc)"
  shows "table_inv (fst (init_result cm h l r acc))"
proof -
  obtain st b where acc: "acc = (st, b)" by (cases acc)
  with assms have st: "table_inv st" by simp
  show ?thesis
  proof (cases "component r")
    case None
    then show ?thesis
      using st by (cases "errors r") (simp_all add: init_result_def acc table_inv_fold_addError)
  next
    case (Some c)
    show ?thesis
    proof (cases "addComponent cm (componentManager st) h l c")
      case (Inl m)
      then show ?thesis using st Some by (simp add: init_result_def acc)
    next
      case (Inr p)
      then show ?thesis using st Some by (cases p) (simp add: init_result_def acc)
    qed
  qed
qed

lemma table_inv_init_layer:
  assumes "table_inv (fst acc)"
  shows "table_inv (fst (init_layer cm h l acc))"
proof -
  obtain st ids where acc: "acc = (st, ids)" by (cases acc)
  with assms have st: "table_inv st" by simp
  let ?r = "fold (init_result cm h l) (findAllComponents cm (componentManager st) h l) (st, False)"
  have r: "table_inv (fst ?r)"
    by (rule fold_invariant[where Q = "\<lambda>acc. table_inv (fst acc)"])
       (simp_all add: table_inv_init_result st)
  obtain st1 b where p: "?r = (st1, b)" by (cases ?r)
  with r have "table_inv st1" by simp
  then show ?thesis using st by (simp add: init_layer_def acc p)
qed

lemma table_inv_init: "table_inv (init cm doc st)"
proof -
  let ?st4 = "cancelAll doc (record_call errorManager_removeAllErrors
                (updateBasePath doc (st\<lparr>renderPromises := [], componentManager := new_ComponentManager cm\<rparr>)))"
  have 0: "table_inv (st\<lparr>renderPromises := []\<rparr>)"
    unfolding table_inv_def table_ok_def by simp
  have 4: "table_inv ?st4"
    by (rule table_inv_cancelAll) (simp add: 0)
  obtain st5 ids where 5: "fold (init_layer cm (objects doc)) (layers doc) (?st4, []) = (st5, ids)"
    by (cases "fold (init_layer cm (objects doc)) (layers doc) (?st4, [])")
  have "table_inv (fst (fold (init_layer cm (objects doc)) (layers doc) (?st4, [])))"
    by (rule fold_invariant[where Q = "\<lambda>acc. table_inv (fst acc)"])
       (simp_all add: table_inv_init_layer 4)
  then have 6: "table_inv st5" by (simp add: 5)
  have "table_inv (fold (renderLayer cm doc) ids (record_call errorManager_reportErrors st5))"
    by (rule fold_invariant[where Q = table_inv]) (simp_all add: table_inv_renderLayer 6)
  then show ?thesis by (simp add: init_def Let_def 5)
qed

lemma table_inv_reset: "table_inv (reset cm doc st)"
  by (simp add: reset_def table_inv_init)

lemma table_inv_start: "table_inv (start cm doc st)"
  by (simp add: start_def table_inv_init)


lemma table_inv_parse_result:
  assumes "table_inv (fst acc)"
  shows "table_inv (fst (parse_result h l r acc))"
proof -
  obtain st vs where acc: "acc = (st, vs)" by (cases acc)
  with assms have st: "table_inv st" by simp
  show ?thesis
  proof (cases "component r")
    case None
    then show ?thesis
      using st by (cases "errors r") (simp_all add: parse_result_def acc table_inv_fold_addError)
  next
    case (Some c)
    then show ?thesis using st by (simp add: parse_result_def acc)
  qed
qed

lemma table_inv_parse_layer:
  assumes "table_inv (fst acc)"
  shows "table_inv (fst (parse_layer cm h e acc))"
proof -
  obtain st specs where acc: "acc = (st, specs)" by (cases acc)
  obtain k l where e: "e = (k, l)" by (cases e)
  from assms acc have st: "table_inv st" by simp
  let ?st1 = "record_call (errorManager_removeErrors k) st"
  let ?r = "fold (parse_result h l) (findAllComponents cm (componentManager st) h l) (?st1, [])"
  have r: "table_inv (fst ?r)"
    by (rule fold_invariant[where Q = "\<lambda>acc. table_inv (fst acc)"])
       (simp_all add: table_inv_parse_result st)
  obtain st2 vs where p: "?r = (st2, vs)" by (cases ?r)
  with r have "table_inv st2" by simp
  then show ?thesis by (simp add: parse_layer_def acc e Let_def p)
qed

lemma table_inv_specificationsByLayer:
  assumes "table_inv st"
  shows "table_inv (fst (specificationsByLayer cm h dl st))"
  unfolding specificationsByLayer_def
  by (rule fold_invariant[where Q = "\<lambda>acc. table_inv (fst acc)"])
     (simp_all add: table_inv_parse_layer assms)

lemma table_inv_removeLayerComponents:
  "table_inv st \<Longrightarrow> table_inv (removeLayerComponents cm i st)"
  unfolding removeLayerComponents_def
  by (rule fold_invariant[where Q = table_inv])
     (simp_all add: Let_def table_inv_cleanupDerivedComponents)

lemma table_inv_removeLayer: "table_inv st \<Longrightarrow> table_inv (removeLayer cm i st)"
  by (simp add: removeLayer_def table_inv_removeLayerComponents)

lemma table_inv_addCurrent: "table_inv st \<Longrightarrow> table_inv (addCurrent cm doc l c st)"
proof (cases "addComponent cm (componentManager st) (objects doc) l c")
  case (Inl m)
  assume "table_inv st"
  with Inl show ?thesis by (simp add: addCurrent_def)
next
  case (Inr p)
  assume "table_inv st"
  with Inr show ?thesis
    by (cases p) (simp add: addCurrent_def table_inv_renderDerived)
qed

lemma table_inv_updateLayer: "table_inv st \<Longrightarrow> table_inv (updateLayer cm doc dl e st)"
proof -
  assume a: "table_inv st"
  obtain k cs where e: "e = (k, cs)" by (cases e)
  have 1: "table_inv (removeLayerComponents cm k st)"
    using a by (rule table_inv_removeLayerComponents)
  show ?thesis
  proof (cases "obj_get dl k")
    case None
    with 1 show ?thesis by (simp add: updateLayer_def e Let_def)
  next
    case (Some l)
    have "table_inv (fold (addCurrent cm doc l) cs (removeLayerComponents cm k st))"
      by (rule fold_invariant[where Q = table_inv]) (simp_all add: table_inv_addCurrent 1)
    with Some show ?thesis by (simp add: updateLayer_def e Let_def)
  qed
qed

lemma table_inv_handleLayers:
  assumes "table_inv st"
  shows "table_inv (handleLayers cm doc ls dl st)"
proof -
  obtain st1 specs where p: "specificationsByLayer cm (objects doc) dl st = (st1, specs)"
    by (cases "specificationsByLayer cm (objects doc) dl st")
  from table_inv_specificationsByLayer[OF assms, of cm "objects doc" dl] p
  have 1: "table_inv st1" by simp
  have 2: "table_inv (fold (removeLayer cm) (removedLayerIds ls) st1)"
    by (rule fold_invariant[where Q = table_inv]) (simp_all add: table_inv_removeLayer 1)
  have 3: "table_inv (fold (updateLayer cm doc dl) (discardRemoved ls specs)
                        (fold (removeLayer cm) (removedLayerIds ls) st1))"
    by (rule fold_invariant[where Q = table_inv]) (simp_all add: table_inv_updateLayer 2)
  show ?thesis
    using 3 by (simp add: handleLayers_def p Let_def table_inv_reset)
qed

lemma handleChange_unfold:
  "handleChange cm doc c st =
     (if ignoredRename doc c then Some (record_call logger_debug st)
      else case change_layers c of
             None \<Rightarrow> Some (beforeLayers cm doc c st)
           | Some ls \<Rightarrow> map_option (\<lambda>dl. handleLayers cm doc ls dl (beforeLayers cm doc c st))
                         (dependentLayers (objects doc) ls []))"
proof (cases "ignoredRename doc c")
  case True
  then show ?thesis by (simp add: handleChange_def ignoredRename_def Let_def)
next
  case False
  then have f: "\<not> (case change_file c of Some f \<Rightarrow> saved doc \<and> previousSaved f = None | None \<Rightarrow> False)"
    by (simp add: ignoredRename_def)
  show ?thesis
  proof (cases "change_layers c")
    case None
    then show ?thesis
      unfolding handleChange_def beforeLayers_def Let_def using False f by simp
  next
    case (Some ls)
    then show ?thesis
      unfolding handleChange_def beforeLayers_def Let_def using False f
      by (cases "dependentLayers (objects doc) ls []") simp_all
  qed
qed

lemma table_inv_beforeLayers: "table_inv st \<Longrightarrow> table_inv (beforeLayers cm doc c st)"
  by (simp add: beforeLayers_def Let_def table_inv_reset)

lemma table_inv_handleChange:
  assumes "table_inv st" and "handleChange cm doc c st = Some st'"
  shows "table_inv st'"
proof -
  note b = table_inv_beforeLayers[OF assms(1), of cm doc c]
  from assms(2) have
    "st' = record_call logger_debug st \<or> st' = beforeLayers cm doc c st
     \<or> (\<exists>ls dl. st' = handleLayers cm doc ls dl (beforeLayers cm doc c st))"
    unfolding handleChange_unfold by (auto split: if_splits option.splits)
  then show ?thesis
    using assms(1) b table_inv_handleLayers[OF b] by auto
qed

lemma table_inv_resolveJob: "table_inv st \<Longrightarrow> table_inv (resolveJob j out st)"
proof -
  assume a: "table_inv st"
  show ?thesis
  proof (cases "job_at (jobs st) j")
    case None
    with a show ?thesis by (simp add: resolveJob_def)
  next
    case (Some jb)
    have "table_ok (st\<lparr>jobs := (jobs st)[j := jb\<lparr>promise := Settled out\<rparr>]\<rparr>)"
      unfolding table_ok_entry
    proof (intro allI impI)
      fix i k assume "(i, k) \<in> set (renderPromises (st\<lparr>jobs := (jobs st)[j := jb\<lparr>promise := Settled out\<rparr>]\<rparr>))"
      with a obtain jb' where jb': "job_at (jobs st) k = Some jb'" "component_id (job_component jb') = i"
        unfolding table_inv_def table_ok_entry by auto
      show "\<exists>x. job_at (jobs (st\<lparr>jobs := (jobs st)[j := jb\<lparr>promise := Settled out\<rparr>]\<rparr>)) k = Some x
                \<and> component_id (job_component x) = i"
        using jb' Some by (cases "k = j") (auto simp: job_at_def split: if_splits)
    qed
    with a Some show ?thesis by (simp add: resolveJob_def table_inv_def)
  qed
qed

lemma table_inv_runHandlers: "table_inv st \<Longrightarrow> table_inv (runHandlers doc j st)"
proof -
  assume a: "table_inv st"
  show ?thesis
  proof (cases "job_at (jobs st) j")
    case None
    with a show ?thesis by (simp add: runHandlers_def)
  next
    case (Some jb)
    show ?thesis
    proof (cases "promise jb")
      case Pending
      with a Some show ?thesis by (simp add: runHandlers_def)
    next
      case (Settled out)
      show ?thesis
      proof (cases "handled jb")
        case True
        with a Some Settled show ?thesis by (simp add: runHandlers_def)
      next
        case False
        let ?st1 = "st\<lparr>jobs := (jobs st)[j := jb\<lparr>handled := True\<rparr>]\<rparr>"
        let ?st' = "runHandlers doc j st"
        have r: "?st' = on_finally doc (job_component jb) (settled (job_component jb) out ?st1)"
          using Some Settled False by (rule runHandlers_settled)
        have s: "sorted_wrt (<) (obj_keys (renderPromises ?st'))"
          using a by (simp add: r table_inv_def obj_delete_sorted)
        have "table_ok ?st'"
          unfolding table_ok_entry
        proof (intro allI impI)
          fix i k assume "(i, k) \<in> set (renderPromises ?st')"
          with obj_delete_subset[of "component_id (job_component jb)" "renderPromises st"]
          have "(i, k) \<in> set (renderPromises st)" by (auto simp: r)
          with a obtain jb' where jb': "job_at (jobs st) k = Some jb'" "component_id (job_component jb') = i"
            unfolding table_inv_def table_ok_entry by auto
          show "\<exists>x. job_at (jobs ?st') k = Some x \<and> component_id (job_component x) = i"
            using jb' Some by (cases "k = j") (auto simp: r job_at_def split: if_splits)
        qed
        with s show ?thesis by (simp add: table_inv_def)
      qed
    qed
  qed
qed

lemma table_inv_step:
  assumes "table_inv st" and "step cm t (doc, st) = Some (doc', st')"
  shows "table_inv st'"
proof (cases t)
  case (Change d c)
  with assms show ?thesis
    by (auto simp: table_inv_handleChange split: if_splits)
next
  case (Resolve j out)
  with assms show ?thesis by (auto simp: table_inv_resolveJob)
next
  case (Handlers j)
  with assms show ?thesis by (auto simp: table_inv_runHandlers)
next
  case Stop
  with assms show ?thesis by (auto simp: table_inv_stop)
qed

lemma table_inv_run:
  assumes "table_inv st" and "run cm ts (doc, st) = Some (doc', st')"
  shows "table_inv st'"
  using assms
proof (induction ts arbitrary: doc st)
  case Nil
  then show ?case by simp
next
  case (Cons t ts)
  from Cons.prems(2) obtain doc1 st1 where
    1: "step cm t (doc, st) = Some (doc1, st1)" and 2: "run cm ts (doc1, st1) = Some (doc', st')"
    by (auto split: option.splits)
  from table_inv_step[OF Cons.prems(1) 1] have "table_inv st1" .
  from Cons.IH[OF this 2] show ?case .
qed


text \<open>
  Claim C3 says that a render request for a component id that has a table entry first
  has the prior job cancelled or settled. \<^verbatim>\<open>_requestRender\<close> looks at no entry: a second
  request for the component being rendered leaves two pending jobs for its id, asks for
  no cancellation, and the table names the second job only.
\<close>

theorem second_request_counterexample:
  "jobs (requestRender icon_doc icon_component rendering_icon) =
     [\<lparr>job_component = icon_component, promise = Pending, handled = False\<rparr>,
      \<lparr>job_component = icon_component, promise = Pending, handled = False\<rparr>]
   \<and> calls (requestRender icon_doc icon_component rendering_icon) =
       calls rendering_icon @ [renderManager_render 1]
   \<and> renderPromises (requestRender icon_doc icon_component rendering_icon) = [(1, 1)]"
  by code_simp

text \<open>
  Claim C3, amended. In every state a started AssetManager reaches, the job table holds
  at most one entry per component id, and each entry names a job that renders the
  component it is stored under. A render request stores the new job under the
  component's id, in place of any entry there was; it adds the job to the jobs there
  are, changes none of them, and calls nothing but \<^verbatim>\<open>render\<close> (and emits the active
  signal when the table was empty): the cancellation of earlier jobs is left to the callers.
\<close>

theorem job_table_keyed_by_component:
  assumes "run cm ts (doc, start cm doc st) = Some (doc', st')"
  shows "distinct (obj_keys (renderPromises st'))
     \<and> table_ok st'
     \<and> obj_get (renderPromises (requestRender doc' c st')) (component_id c) = Some (length (jobs st'))
     \<and> distinct (obj_keys (renderPromises (requestRender doc' c st')))
     \<and> jobs (requestRender doc' c st') =
         jobs st' @ [\<lparr>job_component = c, promise = Pending, handled = False\<rparr>]
     \<and> calls (requestRender doc' c st') =
         calls st' @ renderManager_render (component_id c)
           # (if renderPromises st' = [] then [emit_active (document_id doc')] else [])"
proof -
  have "table_inv (start cm doc st)" by (rule table_inv_start)
  from table_inv_run[OF this assms] have 1: "table_inv st'" .
  then have 2: "table_inv (requestRender doc' c st')" by (rule table_inv_requestRender)
  from 1 2 show ?thesis
    by (simp add: table_inv_def sorted_keys_distinct obj_get_set requestRender_calls)
qed

theorem job_table_keyed_by_component_witness:
  "\<exists>doc' st'.
     run Catalog [Change icon_doc resolution_and_layer, Handlers 0, Resolve 2 (Fulfilled (Some ''/tmp/x''))]
       (icon_doc, start Catalog icon_doc (new_AssetManager Catalog)) = Some (doc', st')
     \<and> renderPromises st' = [(2, 2)] \<and> distinct (obj_keys (renderPromises st')) \<and> table_ok st'"
proof -
  have "map_option (renderPromises \<circ> snd)
          (run Catalog [Change icon_doc resolution_and_layer, Handlers 0, Resolve 2 (Fulfilled (Some ''/tmp/x''))]
             (icon_doc, start Catalog icon_doc (new_AssetManager Catalog))) = Some [(2, 2)]"
    by code_simp
  then obtain doc' st' where
    r: "run Catalog [Change icon_doc resolution_and_layer, Handlers 0, Resolve 2 (Fulfilled (Some ''/tmp/x''))]
          (icon_doc, start Catalog icon_doc (new_AssetManager Catalog)) = Some (doc', st')"
    and t: "renderPromises st' = [(2, 2)]"
    by auto
  from job_table_keyed_by_component[OF r] r t show ?thesis by blast
qed

section \<open>The specifications of the closure\<close>

lemma fold_addError_fields [simp]:
  "componentManager (fold (addError h l) es st) = componentManager st"
  "renderPromises (fold (addError h l) es st) = renderPromises st"
  "jobs (fold (addError h l) es st) = jobs st"
  "basePath (fold (addError h l) es st) = basePath st"
  "listening (fold (addError h l) es st) = listening st"
  by (induction es arbitrary: st) simp_all

lemma parse_results:
  "\<exists>st'. fold (parse_result h l) rs (st, vs) = (st', vs @ List.map_filter component rs)
         \<and> componentManager st' = componentManager st"
proof (induction rs arbitrary: st vs)
  case Nil
  then show ?case by (simp add: List.map_filter_simps)
next
  case (Cons r rs)
  show ?case
  proof (cases "component r")
    case None
    let ?st1 = "case errors r of Some es \<Rightarrow> fold (addError h l) es st | None \<Rightarrow> st"
    have 1: "parse_result h l r (st, vs) = (?st1, vs)"
      using None by (simp add: parse_result_def split: option.split)
    have 2: "componentManager ?st1 = componentManager st"
      by (simp split: option.split)
    from Cons.IH[of ?st1 vs] 1 2 None show ?thesis
      by (auto simp: List.map_filter_simps)
  next
    case (Some c)
    have 1: "parse_result h l r (st, vs) = (st, vs @ [c])"
      using Some by (simp add: parse_result_def)
    from Cons.IH[of st "vs @ [c]"] 1 Some show ?thesis
      by (auto simp: List.map_filter_simps)
  qed
qed

lemma parse_layer_result:
  "\<exists>st'. parse_layer cm h (k, l) (st, specs) =
           (st', if validSpecifications cm (componentManager st) h l \<noteq> []
                 then obj_set (layer_id (h l)) (validSpecifications cm (componentManager st) h l) specs
                 else specs)
         \<and> componentManager st' = componentManager st"
proof -
  let ?st1 = "record_call (errorManager_removeErrors k) st"
  from parse_results[of h l "findAllComponents cm (componentManager st) h l" ?st1 "[]"]
  obtain st' where
    "fold (parse_result h l) (findAllComponents cm (componentManager st) h l) (?st1, []) =
       (st', validSpecifications cm (componentManager st) h l)"
    "componentManager st' = componentManager st"
    by (auto simp: validSpecifications_def)
  then show ?thesis by (simp add: parse_layer_def Let_def)
qed

lemma specificationsByLayer_collect:
  "\<exists>st'. fold (parse_layer cm h) dl (st, specs) =
           (st', collect h (validSpecifications cm (componentManager st) h) dl specs)
         \<and> componentManager st' = componentManager st"
proof (induction dl arbitrary: st specs)
  case Nil
  then show ?case by (simp add: collect_def)
next
  case (Cons e dl)
  obtain k l where e: "e = (k, l)" by (cases e)
  let ?V = "validSpecifications cm (componentManager st) h"
  let ?specs1 = "if ?V l \<noteq> [] then obj_set (layer_id (h l)) (?V l) specs else specs"
  from parse_layer_result[of cm h k l st specs] obtain st1 where
    1: "parse_layer cm h (k, l) (st, specs) = (st1, ?specs1)" and 2: "componentManager st1 = componentManager st"
    by blast
  from Cons.IH[of st1 ?specs1] obtain st' where
    3: "fold (parse_layer cm h) dl (st1, ?specs1) = (st', collect h (validSpecifications cm (componentManager st1) h) dl ?specs1)"
    and 4: "componentManager st' = componentManager st1"
    by blast
  have "collect h ?V (e # dl) specs = collect h ?V dl ?specs1"
    by (simp add: collect_def e)
  with 1 2 3 4 show ?case by (simp add: e)
qed

lemma collect_sorted:
  "sorted_wrt (<) (obj_keys specs) \<Longrightarrow> sorted_wrt (<) (obj_keys (collect h V dl specs))"
  unfolding collect_def
  by (induction dl arbitrary: specs) (auto simp: obj_set_sorted)

lemma collect_get:
  assumes "distinct (obj_keys dl)" and "\<forall>(k, l)\<in>set dl. layer_id (h l) = k"
  shows "obj_get (collect h V dl specs) k =
           (case obj_get dl k of
              Some l \<Rightarrow> if V l \<noteq> [] then Some (V l) else obj_get specs k
            | None \<Rightarrow> obj_get specs k)"
  using assms
proof (induction dl arbitrary: specs)
  case Nil
  then show ?case by (simp add: collect_def)
next
  case (Cons e dl)
  obtain k0 l0 where e: "e = (k0, l0)" by (cases e)
  let ?specs1 = "if V l0 \<noteq> [] then obj_set (layer_id (h l0)) (V l0) specs else specs"
  from Cons.prems have d: "distinct (obj_keys dl)" and n: "k0 \<notin> set (obj_keys dl)"
    and a: "\<forall>(k, l)\<in>set dl. layer_id (h l) = k" and i: "layer_id (h l0) = k0"
    by (auto simp: e)
  have c: "collect h V (e # dl) specs = collect h V dl ?specs1"
    by (simp add: collect_def e)
  have s: "obj_get ?specs1 k = (if k = k0 \<and> V l0 \<noteq> [] then Some (V l0) else obj_get specs k)"
    by (simp add: obj_get_set i)
  show ?case
  proof (cases "k = k0")
    case True
    with n have "obj_get dl k = None" by (simp add: obj_get_None)
    then show ?thesis
      unfolding c Cons.IH[OF d a] s using True by (simp add: e)
  next
    case False
    then show ?thesis
      unfolding c Cons.IH[OF d a] s by (simp add: e)
  qed
qed

lemma resetRequired_escalates:
  assumes "sorted_wrt (<) (obj_keys dl)" and "\<forall>(k, l)\<in>set dl. layer_id (h l) = k"
  shows "resetRequired h dl (collect h (validSpecifications cm catalog h) dl []) \<longleftrightarrow> escalates cm catalog h dl"
proof -
  let ?V = "validSpecifications cm catalog h"
  let ?specs = "collect h ?V dl []"
  have dd: "distinct (obj_keys dl)" using assms(1) by (rule sorted_keys_distinct)
  have ds: "distinct (obj_keys ?specs)"
    by (rule sorted_keys_distinct, rule collect_sorted) simp
  have g: "obj_get ?specs k = (case obj_get dl k of Some l \<Rightarrow> if ?V l \<noteq> [] then Some (?V l) else None | None \<Rightarrow> None)" for k
    using collect_get[OF dd assms(2), of ?V "[]" k] by (simp split: option.split)
  have m: "(k, ss) \<in> set ?specs \<longleftrightarrow> (\<exists>l. (k, l) \<in> set dl \<and> ?V l \<noteq> [] \<and> ss = ?V l)" for k ss
  proof
    assume "(k, ss) \<in> set ?specs"
    with ds have "obj_get ?specs k = Some ss" by (simp add: obj_mem_get)
    then show "\<exists>l. (k, l) \<in> set dl \<and> ?V l \<noteq> [] \<and> ss = ?V l"
      unfolding g by (auto split: option.splits if_splits dest: obj_get_mem)
  next
    assume "\<exists>l. (k, l) \<in> set dl \<and> ?V l \<noteq> [] \<and> ss = ?V l"
    then obtain l where l: "(k, l) \<in> set dl" "?V l \<noteq> []" "ss = ?V l" by blast
    with dd have "obj_get dl k = Some l" by (simp add: obj_mem_get)
    with l have "obj_get ?specs k = Some ss" unfolding g by simp
    then show "(k, ss) \<in> set ?specs" by (rule obj_get_mem)
  qed
  have "resetRequired h dl ?specs \<longleftrightarrow>
          (\<exists>k ss. (k, ss) \<in> set ?specs
             \<and> ((case obj_get dl k of Some l \<Rightarrow> adjustment (h l) | None \<Rightarrow> False) \<or> list_ex has_default ss))"
    by (auto simp: resetRequired_def list_ex_iff)
  also have "\<dots> \<longleftrightarrow> (\<exists>k l. (k, l) \<in> set dl \<and> ?V l \<noteq> [] \<and> (adjustment (h l) \<or> list_ex has_default (?V l)))"
  proof
    assume "\<exists>k ss. (k, ss) \<in> set ?specs
             \<and> ((case obj_get dl k of Some l \<Rightarrow> adjustment (h l) | None \<Rightarrow> False) \<or> list_ex has_default ss)"
    then obtain k ss where 1: "(k, ss) \<in> set ?specs"
      and 2: "(case obj_get dl k of Some l \<Rightarrow> adjustment (h l) | None \<Rightarrow> False) \<or> list_ex has_default ss"
      by blast
    from 1 obtain l where l: "(k, l) \<in> set dl" "?V l \<noteq> []" "ss = ?V l" unfolding m by blast
    with dd have "obj_get dl k = Some l" by (simp add: obj_mem_get)
    with 2 l show "\<exists>k l. (k, l) \<in> set dl \<and> ?V l \<noteq> [] \<and> (adjustment (h l) \<or> list_ex has_default (?V l))"
      by auto
  next
    assume "\<exists>k l. (k, l) \<in> set dl \<and> ?V l \<noteq> [] \<and> (adjustment (h l) \<or> list_ex has_default (?V l))"
    then obtain k l where l: "(k, l) \<in> set dl" "?V l \<noteq> []" "adjustment (h l) \<or> list_ex has_default (?V l)"
      by blast
    with dd have "obj_get dl k = Some l" by (simp add: obj_mem_get)
    moreover from l have "(k, ?V l) \<in> set ?specs" unfolding m by blast
    ultimately show "\<exists>k ss. (k, ss) \<in> set ?specs
             \<and> ((case obj_get dl k of Some l \<Rightarrow> adjustment (h l) | None \<Rightarrow> False) \<or> list_ex has_default ss)"
      using l(3) by force
  qed
  also have "\<dots> \<longleftrightarrow> escalates cm catalog h dl"
    by (auto simp: escalates_def list_ex_iff)
  finally show ?thesis .
qed


lemma dependentLayers_chains:
  "dependentLayers h cs dl0 = Some dl \<Longrightarrow> \<exists>lss. list_all2 (\<lambda>e ls. chain h (layer (snd e)) ls) cs lss"
proof (induction cs arbitrary: dl0)
  case Nil
  then show ?case by simp
next
  case (Cons e cs)
  obtain i lc where e: "e = (i, lc)" by (cases e)
  from Cons.prems obtain ds where
    1: "getDependentLayers h (layer lc) = Some ds"
    and 2: "dependentLayers h cs (addDependencies h ds dl0) = Some dl"
    by (auto simp: e split: bind_splits)
  from getDependentLayers_chain[OF 1] obtain ls where "chain h (layer lc) ls" by blast
  moreover from Cons.IH[OF 2] obtain lss where "list_all2 (\<lambda>e ls. chain h (layer (snd e)) ls) cs lss"
    by blast
  ultimately have "list_all2 (\<lambda>e ls. chain h (layer (snd e)) ls) (e # cs) (ls # lss)"
    by (simp add: e)
  then show ?case by blast
qed

lemma dependentLayers_wf:
  assumes "dependentLayers h cs [] = Some dl"
  shows "sorted_wrt (<) (obj_keys dl)" and "\<forall>(k, l)\<in>set dl. layer_id (h l) = k"
proof -
  from dependentLayers_chains[OF assms] obtain lss where
    "list_all2 (\<lambda>e ls. chain h (layer (snd e)) ls) cs lss" by blast
  from dependentLayers_closure[OF this, of "[]"] assms
  have s: "sorted_wrt (<) (obj_keys dl)"
    and v: "\<forall>k l. obj_get dl k = Some l \<longrightarrow> layer_id (h l) = k"
    by auto
  show "sorted_wrt (<) (obj_keys dl)" by (rule s)
  have "distinct (obj_keys dl)" using s by (rule sorted_keys_distinct)
  then show "\<forall>(k, l)\<in>set dl. layer_id (h l) = k"
    using v by (auto dest: obj_mem_get)
qed

section \<open>The calls of the incremental passes and of a reset\<close>

lemma emits_cleanupDerived:
  assumes "\<And>i. P (renderManager_cancel i)" and "\<And>p. P (fileManager_removeFileWithin p)"
  shows "emits calls P (cleanupDerived d)"
  by (rule emitsI) (simp add: cleanupDerived_calls assms)

lemma emits_cleanupDerivedComponents:
  assumes "\<And>i. P (renderManager_cancel i)" and "\<And>p. P (fileManager_removeFileWithin p)"
  shows "emits calls P (cleanupDerivedComponents cm i)"
  unfolding cleanupDerivedComponents_def
  by (rule emits_dep, rule emits_fold, rule emits_cleanupDerived) (rule assms)+

lemma emits_removeLayerComponents:
  assumes "\<And>i. P (renderManager_cancel i)" and "\<And>p. P (fileManager_removeFileWithin p)"
  shows "emits calls P (removeLayerComponents cm k)"
  unfolding removeLayerComponents_def
proof (rule emits_dep, rule emits_fold)
  fix s0 :: "'a assetManager" and x
  have "emits calls P (\<lambda>st. (\<lambda>st1. st1\<lparr>componentManager := removeComponent cm (componentManager st1) x\<rparr>)
                                 (cleanupDerivedComponents cm x st))"
    by (rule emits_comp, rule emits_cleanupDerivedComponents, (rule assms)+, rule emits_calls_eq) simp
  then show "emits calls P (\<lambda>st. let st1 = cleanupDerivedComponents cm x st
                                  in st1\<lparr>componentManager := removeComponent cm (componentManager st1) x\<rparr>)"
    by (simp add: Let_def)
qed

lemma emits_removeLayer:
  assumes "\<And>i. P (renderManager_cancel i)" and "\<And>p. P (fileManager_removeFileWithin p)"
    and "\<And>i. P (errorManager_removeErrors i)"
  shows "emits calls P (removeLayer cm k)"
proof -
  have "emits calls P (\<lambda>st. record_call (errorManager_removeErrors k) (removeLayerComponents cm k st))"
    by (rule emits_comp, rule emits_removeLayerComponents, (rule assms)+, rule emits_record_call, rule assms)
  then show ?thesis by (simp add: removeLayer_def[abs_def])
qed

lemma emits_updateLayer:
  assumes "\<And>i. P (renderManager_cancel i)" and "\<And>p. P (fileManager_removeFileWithin p)"
    and "\<And>i. P (renderManager_render i)" and "\<And>d. P (emit_active d)"
    and "\<And>i m. P (errorManager_addError i m)"
  shows "emits calls P (updateLayer cm doc dl e)"
proof -
  obtain k cs where e: "e = (k, cs)" by (cases e)
  have 1: "emits calls P (removeLayerComponents cm k)"
    by (rule emits_removeLayerComponents) (rule assms)+
  show ?thesis
  proof (cases "obj_get dl k")
    case None
    with 1 show ?thesis by (simp add: updateLayer_def[abs_def] e Let_def)
  next
    case (Some l)
    have "emits calls P (fold (addCurrent cm doc l) cs)"
      by (rule emits_fold, rule emits_addCurrent_calls) (rule assms)+
    with 1 have "emits calls P (\<lambda>st. fold (addCurrent cm doc l) cs (removeLayerComponents cm k st))"
      by (rule emits_comp)
    with Some show ?thesis by (simp add: updateLayer_def[abs_def] e Let_def)
  qed
qed

lemma incremental_passes:
  "\<exists>new. calls (record_call errorManager_reportErrors
                  (fold (updateLayer cm doc dl) specs (fold (removeLayer cm) ids st))) = calls st @ new
         \<and> list_all incremental new"
proof -
  have 1: "emits calls incremental (fold (removeLayer cm) ids)"
    by (rule emits_fold, rule emits_removeLayer) (simp_all add: incremental_def)
  have 2: "emits calls incremental (fold (updateLayer cm doc dl) specs)"
    by (rule emits_fold, rule emits_updateLayer) (simp_all add: incremental_def)
  have 3: "emits calls incremental (record_call errorManager_reportErrors)"
    by (rule emits_record_call) (simp add: incremental_def)
  from emits_comp[OF emits_comp[OF 1 2] 3] show ?thesis
    by (rule emitsD)
qed

lemma updateBasePath_fields [simp]:
  "renderPromises (updateBasePath doc st) = renderPromises st"
  "componentManager (updateBasePath doc st) = componentManager st"
  "basePath (updateBasePath doc st) = assets_path doc"
  "jobs (updateBasePath doc st) = jobs st"
  "listening (updateBasePath doc st) = listening st"
  "calls (updateBasePath doc st) = calls st @ [fileManager_updateBasePath]"
  by (simp_all add: updateBasePath_def)

lemma fold_emits:
  assumes "\<And>x. emits tr P (g x)"
  shows "\<exists>new. tr (fold g xs s) = tr s @ new \<and> list_all P new"
  by (rule emitsD, rule emits_fold, rule assms)

lemma emits_addError: "emits calls (\<lambda>e. True) (addError h l m)"
  by (rule emitsI) simp

lemma emits_init_result: "emits (\<lambda>acc. calls (fst acc)) (\<lambda>e. True) (init_result cm h l r)"
proof (rule emitsI)
  fix acc :: "'a assetManager \<times> bool"
  obtain st b where acc: "acc = (st, b)" by (cases acc)
  have f: "\<exists>new. calls (fold (addError h l) es st) = calls st @ new" for es
    using fold_emits[where g = "addError h l" and tr = calls and P = "\<lambda>e. True" and xs = es and s = st,
        OF emits_addError]
    by blast
  show "\<exists>new. calls (fst (init_result cm h l r acc)) = calls (fst acc) @ new \<and> list_all (\<lambda>e. True) new"
  proof (cases "component r")
    case None
    then show ?thesis
      using f by (cases "errors r") (simp_all add: init_result_def acc list_all_iff)
  next
    case (Some c)
    then show ?thesis
      by (cases "addComponent cm (componentManager st) h l c")
         (auto simp: init_result_def acc list_all_iff split: prod.splits)
  qed
qed

lemma emits_init_layer: "emits (\<lambda>acc. calls (fst acc)) (\<lambda>e. True) (init_layer cm h l)"
proof (rule emitsI)
  fix acc :: "'a assetManager \<times> nat list"
  obtain st ids where acc: "acc = (st, ids)" by (cases acc)
  let ?r = "fold (init_result cm h l) (findAllComponents cm (componentManager st) h l) (st, False)"
  obtain st1 b where p: "?r = (st1, b)" by (cases ?r)
  from fold_emits[where g = "init_result cm h l" and xs = "findAllComponents cm (componentManager st) h l"
      and s = "(st, False)", OF emits_init_result]
  have "\<exists>new. calls st1 = calls st @ new" by (simp add: p list_all_iff)
  then show "\<exists>new. calls (fst (init_layer cm h l acc)) = calls (fst acc) @ new \<and> list_all (\<lambda>e. True) new"
    by (simp add: init_layer_def acc p list_all_iff)
qed

lemma emits_renderLayer: "emits calls (\<lambda>e. True) (renderLayer cm doc k)"
  unfolding renderLayer_def
  by (rule emits_dep, rule emits_fold, rule emits_renderDerived_calls) simp_all

lemma init_calls:
  "\<exists>new. calls (init cm doc st) =
           calls st @ fileManager_updateBasePath # errorManager_removeAllErrors
             # renderManager_cancelAll (document_id doc) # new"
proof -
  let ?st4 = "cancelAll doc (record_call errorManager_removeAllErrors
                (updateBasePath doc (st\<lparr>renderPromises := [], componentManager := new_ComponentManager cm\<rparr>)))"
  have 4: "calls ?st4 = calls st @ [fileManager_updateBasePath, errorManager_removeAllErrors,
                                    renderManager_cancelAll (document_id doc)]"
    by (simp add: updateBasePath_def)
  obtain st5 ids where 5: "fold (init_layer cm (objects doc)) (layers doc) (?st4, []) = (st5, ids)"
    by (cases "fold (init_layer cm (objects doc)) (layers doc) (?st4, [])")
  from fold_emits[where g = "init_layer cm (objects doc)" and xs = "layers doc" and s = "(?st4, [])",
      OF emits_init_layer]
  obtain n1 where n1: "calls st5 = calls ?st4 @ n1" by (auto simp: 5)
  from fold_emits[where g = "renderLayer cm doc" and xs = ids
      and s = "record_call errorManager_reportErrors st5", OF emits_renderLayer]
  obtain n2 where n2: "calls (fold (renderLayer cm doc) ids (record_call errorManager_reportErrors st5)) =
                          calls st5 @ errorManager_reportErrors # n2"
    by auto
  have "calls (init cm doc st) = calls st5 @ errorManager_reportErrors # n2"
    using n2 by (simp add: init_def Let_def 5)
  then have "calls (init cm doc st) =
           calls st @ fileManager_updateBasePath # errorManager_removeAllErrors
             # renderManager_cancelAll (document_id doc) # (n1 @ errorManager_reportErrors # n2)"
    unfolding n1 by simp
  then show ?thesis by blast
qed

lemma emits_cleanup: "emits calls (\<lambda>e. True) (cleanup cm doc)"
proof -
  have 1: "emits calls (\<lambda>e. True) (cleanup_layer cm h l)" for h l
    unfolding cleanup_layer_def
    by (rule emits_if, rule emits_id, rule emits_dep, rule emits_fold, rule emits_cleanupDerivedComponents)
       simp_all
  show ?thesis
    unfolding cleanup_def
    by (rule emits_if, rule emits_fold, rule 1, rule emits_id)
qed

lemma reset_calls:
  "\<exists>new. calls (reset cm doc st) = calls st @ new \<and> renderManager_cancelAll (document_id doc) \<in> set new
         \<and> errorManager_removeAllErrors \<in> set new"
proof -
  from emitsD[OF emits_cleanup, of cm doc st] obtain n1 where
    1: "calls (cleanup cm doc st) = calls st @ n1" by blast
  from init_calls[of cm doc "cleanup cm doc st"] obtain n2 where
    2: "calls (init cm doc (cleanup cm doc st)) =
          calls (cleanup cm doc st) @ fileManager_updateBasePath # errorManager_removeAllErrors
            # renderManager_cancelAll (document_id doc) # n2"
    by blast
  have "calls (reset cm doc st) =
          calls st @ (n1 @ fileManager_updateBasePath # errorManager_removeAllErrors
            # renderManager_cancelAll (document_id doc) # n2)"
    by (simp add: reset_def 1 2)
  then show ?thesis by force
qed


lemma emits_parse_result: "emits (\<lambda>acc. calls (fst acc)) incremental (parse_result h l r)"
proof (rule emitsI)
  fix acc :: "'a assetManager \<times> componentSpec list"
  obtain st vs where acc: "acc = (st, vs)" by (cases acc)
  have "emits calls incremental (addError h l m)" for m
    by (rule emitsI) (simp add: incremental_def)
  then have f: "\<exists>new. calls (fold (addError h l) es st) = calls st @ new \<and> list_all incremental new" for es
    by (rule fold_emits)
  show "\<exists>new. calls (fst (parse_result h l r acc)) = calls (fst acc) @ new \<and> list_all incremental new"
  proof (cases "component r")
    case None
    then show ?thesis
      using f by (cases "errors r") (simp_all add: parse_result_def acc)
  next
    case (Some c)
    then show ?thesis by (simp add: parse_result_def acc)
  qed
qed

lemma emits_parse_layer: "emits (\<lambda>acc. calls (fst acc)) incremental (parse_layer cm h e)"
proof (rule emitsI)
  fix acc :: "'a assetManager \<times> componentSpec list obj"
  obtain st specs where acc: "acc = (st, specs)" by (cases acc)
  obtain k l where e: "e = (k, l)" by (cases e)
  let ?st1 = "record_call (errorManager_removeErrors k) st"
  let ?r = "fold (parse_result h l) (findAllComponents cm (componentManager st) h l) (?st1, [])"
  obtain st2 vs where p: "?r = (st2, vs)" by (cases ?r)
  from fold_emits[where g = "parse_result h l" and xs = "findAllComponents cm (componentManager st) h l"
      and s = "(?st1, [])", OF emits_parse_result]
  obtain new where "calls st2 = calls ?st1 @ new" "list_all incremental new"
    by (auto simp: p)
  then have "calls st2 = calls st @ (errorManager_removeErrors k # new)
             \<and> list_all incremental (errorManager_removeErrors k # new)"
    by (simp add: incremental_def)
  then have x: "\<exists>new. calls st2 = calls st @ new \<and> list_all incremental new"
    by blast
  have "fst (parse_layer cm h e acc) = st2"
    unfolding parse_layer_def acc e by (simp add: Let_def p)
  with x show "\<exists>new. calls (fst (parse_layer cm h e acc)) = calls (fst acc) @ new \<and> list_all incremental new"
    by (simp add: acc)
qed

lemma specificationsByLayer_calls:
  "\<exists>new. calls (fst (specificationsByLayer cm h dl st)) = calls st @ new \<and> list_all incremental new"
  unfolding specificationsByLayer_def
  using fold_emits[where g = "parse_layer cm h" and xs = dl and s = "(st, [])", OF emits_parse_layer]
  by simp

text \<open>
  Claim C5. A change that carries layers and no resolution, and is not an ignored rename,
  is handled as follows once the closure \<open>dl\<close> of its layers is computed. If some layer of
  the closure yields at least one valid specification and is an adjustment layer or has a
  specification flagged default, the result is the full reset of the state the parsing
  left, and nothing after it: the calls include those of a reset (all errors removed, all
  renders of the document cancelled). If no layer of the closure is such, every call made
  from the parsing on is one of the incremental passes (errors of a layer removed or
  added, a render cancelled or requested, an asset path deleted, the active signal, the
  report of errors): none is a call of a reset.
\<close>

theorem reset_escalation:
  assumes "\<not> ignoredRename doc c" and "\<not> change_resolution c" and "change_layers c = Some ls"
    and "dependentLayers (objects doc) ls [] = Some dl"
  shows "\<exists>st'. handleChange cm doc c st = Some st'
     \<and> (escalates cm (componentManager st) (objects doc) dl \<longrightarrow>
          st' = reset cm doc (fst (specificationsByLayer cm (objects doc) dl (beforeLayers cm doc c st)))
          \<and> (\<exists>new. calls st' = calls (beforeLayers cm doc c st) @ new
                \<and> renderManager_cancelAll (document_id doc) \<in> set new
                \<and> errorManager_removeAllErrors \<in> set new))
     \<and> (\<not> escalates cm (componentManager st) (objects doc) dl \<longrightarrow>
          (\<exists>new. calls st' = calls (beforeLayers cm doc c st) @ new \<and> list_all incremental new))"
proof -
  let ?h = "objects doc"
  let ?st1 = "beforeLayers cm doc c st"
  let ?V = "validSpecifications cm (componentManager st) ?h"
  have cat: "componentManager ?st1 = componentManager st"
    using assms(2) by (simp add: beforeLayers_def Let_def)
  from specificationsByLayer_collect[of cm ?h dl ?st1 "[]"] obtain st2 where
    p: "specificationsByLayer cm ?h dl ?st1 = (st2, collect ?h ?V dl [])"
    by (auto simp: specificationsByLayer_def cat)
  from specificationsByLayer_calls[of cm ?h dl ?st1] p obtain n1 where
    n1: "calls st2 = calls ?st1 @ n1" "list_all incremental n1"
    by auto
  note wf = dependentLayers_wf[OF assms(4)]
  have rr: "resetRequired ?h dl (collect ?h ?V dl []) \<longleftrightarrow> escalates cm (componentManager st) ?h dl"
    using wf by (rule resetRequired_escalates)
  have hc: "handleChange cm doc c st = Some (handleLayers cm doc ls dl ?st1)"
    using assms by (simp add: handleChange_unfold)
  show ?thesis
  proof (cases "escalates cm (componentManager st) ?h dl")
    case True
    then have hl: "handleLayers cm doc ls dl ?st1 = reset cm doc st2"
      by (simp add: handleLayers_def p rr)
    from reset_calls[of cm doc st2] obtain n2 where
      "calls (reset cm doc st2) = calls st2 @ n2" "renderManager_cancelAll (document_id doc) \<in> set n2"
      "errorManager_removeAllErrors \<in> set n2"
      by blast
    then have "calls (reset cm doc st2) = calls ?st1 @ (n1 @ n2)
               \<and> renderManager_cancelAll (document_id doc) \<in> set (n1 @ n2)
               \<and> errorManager_removeAllErrors \<in> set (n1 @ n2)"
      by (simp add: n1)
    then have "\<exists>new. calls (reset cm doc st2) = calls ?st1 @ new
                 \<and> renderManager_cancelAll (document_id doc) \<in> set new
                 \<and> errorManager_removeAllErrors \<in> set new"
      by blast
    with True hc hl show ?thesis by (simp add: p)
  next
    case False
    let ?st' = "record_call errorManager_reportErrors
                 (fold (updateLayer cm doc dl) (discardRemoved ls (collect ?h ?V dl []))
                    (fold (removeLayer cm) (removedLayerIds ls) st2))"
    from False have hl: "handleLayers cm doc ls dl ?st1 = ?st'"
      by (simp add: handleLayers_def p rr Let_def)
    from incremental_passes[of cm doc dl "discardRemoved ls (collect ?h ?V dl [])" "removedLayerIds ls" st2]
    obtain n2 where "calls ?st' = calls st2 @ n2" "list_all incremental n2"
      by blast
    then have "calls ?st' = calls ?st1 @ (n1 @ n2) \<and> list_all incremental (n1 @ n2)"
      by (simp add: n1)
    then have "\<exists>new. calls ?st' = calls ?st1 @ new \<and> list_all incremental new"
      by blast
    with False hc hl show ?thesis by simp
  qed
qed


theorem reset_escalation_witness:
  "\<not> ignoredRename icon_doc layer_modified \<and> \<not> change_resolution layer_modified
   \<and> change_layers layer_modified = Some [(1, \<lparr>type = modified, layer = 1\<rparr>)]
   \<and> dependentLayers (objects icon_doc) [(1, \<lparr>type = modified, layer = 1\<rparr>)] [] = Some [(1, 1)]
   \<and> dependentLayers (objects levels_doc) [(1, \<lparr>type = modified, layer = 1\<rparr>)] [] = Some [(1, 1)]
   \<and> \<not> escalates Catalog (componentManager rendering_icon) (objects icon_doc) [(1, 1)]
   \<and> (\<exists>st' new. handleChange Catalog icon_doc layer_modified rendering_icon = Some st'
          \<and> calls st' = calls (beforeLayers Catalog icon_doc layer_modified rendering_icon) @ new
          \<and> list_all incremental new)
   \<and> escalates Catalog (componentManager levels_rendering) (objects levels_doc) [(1, 1)]
   \<and> (\<exists>st' new. handleChange Catalog levels_doc layer_modified levels_rendering = Some st'
          \<and> calls st' = calls (beforeLayers Catalog levels_doc layer_modified levels_rendering) @ new
          \<and> renderManager_cancelAll 7 \<in> set new)"
proof -
  have a: "\<not> ignoredRename icon_doc layer_modified" "\<not> ignoredRename levels_doc layer_modified"
    by (simp_all add: ignoredRename_def layer_modified_def)
  have b: "\<not> change_resolution layer_modified"
    by (simp add: layer_modified_def)
  have c: "change_layers layer_modified = Some [(1, \<lparr>type = modified, layer = 1\<rparr>)]"
    by (simp add: layer_modified_def)
  have d: "dependentLayers (objects icon_doc) [(1, \<lparr>type = modified, layer = 1\<rparr>)] [] = Some [(1, 1)]"
    by code_simp
  have d': "dependentLayers (objects levels_doc) [(1, \<lparr>type = modified, layer = 1\<rparr>)] [] = Some [(1, 1)]"
    by code_simp
  have e: "\<not> escalates Catalog (componentManager rendering_icon) (objects icon_doc) [(1, 1)]"
    by code_simp
  have e': "escalates Catalog (componentManager levels_rendering) (objects levels_doc) [(1, 1)]"
    by code_simp
  have i: "document_id levels_doc = 7" by (simp add: levels_doc_def)
  from reset_escalation[OF a(1) b c d, of Catalog rendering_icon] e
  have 1: "\<exists>st' new. handleChange Catalog icon_doc layer_modified rendering_icon = Some st'
          \<and> calls st' = calls (beforeLayers Catalog icon_doc layer_modified rendering_icon) @ new
          \<and> list_all incremental new"
    by blast
  from reset_escalation[OF a(2) b c d', of Catalog levels_rendering] e'
  have 2: "\<exists>st' new. handleChange Catalog levels_doc layer_modified levels_rendering = Some st'
          \<and> calls st' = calls (beforeLayers Catalog levels_doc layer_modified levels_rendering) @ new
          \<and> renderManager_cancelAll 7 \<in> set new"
    unfolding i by blast
  from a(1) b c d d' e 1 e' 2 show ?thesis by blast
qed

end
